theory Spec2Isabelle
  imports Main "HOL-Library.Word" "HOL-Library.Monad_Syntax"
begin

unbundle bit_operations_syntax

section \<open>Bytes, strings and maps\<close>

text \<open>
  A Go \<^verbatim>\<open>string\<close> and a Go \<^verbatim>\<open>[]byte\<close> are both sequences of 8-bit bytes, and the
  conversions \<^verbatim>\<open>string(b)\<close> and \<^verbatim>\<open>[]byte(s)\<close> keep every byte. Both are modelled as lists
  of \<^typ>\<open>char\<close>, which is exactly an 8-bit value. A \<^verbatim>\<open>map[string]string\<close> is a partial
  function from strings to strings.
\<close>

type_synonym byte = char
type_synonym params = "string \<rightharpoonup> string"

abbreviation NUL :: byte where
  "NUL \<equiv> CHR 0x00"

subsection \<open>strings.Split and strings.Join\<close>

text \<open>
  \<^verbatim>\<open>strings.Split(s, sep)\<close> for a one-byte separator (the handler only ever passes
  \<^verbatim>\<open>"."\<close>): a string with \<open>n\<close> separators gives \<open>n + 1\<close> parts, and the empty string gives
  one empty part.
\<close>

fun Split :: "string \<Rightarrow> char \<Rightarrow> string list" where
  "Split [] sep = [[]]"
| "Split (c # cs) sep =
     (if c = sep then [] # Split cs sep
      else (case Split cs sep of [] \<Rightarrow> [[c]] | p # ps \<Rightarrow> (c # p) # ps))"

fun Join :: "string list \<Rightarrow> string \<Rightarrow> string" where
  "Join [] sep = []"
| "Join [p] sep = p"
| "Join (p # q # ps) sep = p @ sep @ Join (q # ps) sep"

subsection \<open>encoding/binary, big endian\<close>

text \<open>
  \<^verbatim>\<open>binary.BigEndian.Uint32(b)\<close> is
  \<^verbatim>\<open>uint32(b[3]) | uint32(b[2])<<8 | uint32(b[1])<<16 | uint32(b[0])<<24\<close>; it panics on
  a slice shorter than four bytes, which is the value \<open>None\<close> here.
\<close>

fun Uint32 :: "byte list \<Rightarrow> 32 word option" where
  "Uint32 (b0 # b1 # b2 # b3 # _) =
     Some (of_char b3 OR push_bit 8 (of_char b2) OR push_bit 16 (of_char b1)
           OR push_bit 24 (of_char b0))"
| "Uint32 _ = None"

text \<open>
  The four bytes \<^verbatim>\<open>byte(v >> 24), byte(v >> 16), byte(v >> 8), byte(v)\<close> that
  \<^verbatim>\<open>binary.BigEndian.PutUint32\<close> stores.
\<close>

definition be32 :: "32 word \<Rightarrow> byte list" where
  "be32 v = [char_of (unat (drop_bit 24 v)), char_of (unat (drop_bit 16 v)),
             char_of (unat (drop_bit 8 v)), char_of (unat v)]"

subsection \<open>Writing into an allocated buffer\<close>

text \<open>
  A buffer made by \<^verbatim>\<open>make([]byte, n)\<close> is a list of \<open>n\<close> zero bytes. Writing into it
  keeps its length; an index or a slice bound out of range is a run-time panic, the value
  \<open>None\<close>. \<open>PutUint32 buf off v\<close> is \<^verbatim>\<open>binary.BigEndian.PutUint32(buf[off:off+4], v)\<close>,
  \<open>copy_at dst off src\<close> is \<^verbatim>\<open>copy(dst[off:], src)\<close>, which copies as many bytes as fit,
  and \<open>set_at dst i b\<close> is \<^verbatim>\<open>dst[i] = b\<close>.
\<close>

definition make_bytes :: "nat \<Rightarrow> byte list" where
  "make_bytes n = replicate n NUL"

definition PutUint32 :: "byte list \<Rightarrow> nat \<Rightarrow> 32 word \<Rightarrow> byte list option" where
  "PutUint32 buf off v =
     (if off + 4 \<le> length buf then Some (take off buf @ be32 v @ drop (off + 4) buf)
      else None)"

definition copy_at :: "byte list \<Rightarrow> nat \<Rightarrow> byte list \<Rightarrow> byte list option" where
  "copy_at dst off src =
     (if off \<le> length dst
      then Some (take off dst @ take (length dst - off) src @ drop (off + length src) dst)
      else None)"

definition set_at :: "byte list \<Rightarrow> nat \<Rightarrow> byte \<Rightarrow> byte list option" where
  "set_at dst i b = (if i < length dst then Some (dst[i := b]) else None)"

subsection \<open>Iterating over a map\<close>

text \<open>
  Go's \<^verbatim>\<open>for key, value := range m\<close> visits every entry of the map once, in an order
  that the language leaves open and that may differ from one loop to the next. The order
  is a parameter of the model: \<open>range_of m ks\<close> is the sequence of entries visited when the
  keys come in the order \<open>ks\<close>, and \<open>iteration_order m ks\<close> says that \<open>ks\<close> is an order
  the run time may choose, each key of the map exactly once.
\<close>

definition range_of :: "params \<Rightarrow> string list \<Rightarrow> (string \<times> string) list" where
  "range_of m ks = concat (map (\<lambda>k. case m k of None \<Rightarrow> [] | Some v \<Rightarrow> [(k, v)]) ks)"

definition iteration_order :: "params \<Rightarrow> string list \<Rightarrow> bool" where
  "iteration_order m ks \<longleftrightarrow> distinct ks \<and> set ks = dom m"

section \<open>Connections\<close>

text \<open>
  A \<^verbatim>\<open>net.Conn\<close> as the handshake sees it: the bytes the peer will still send, the bytes
  written to the peer so far, whether a write succeeds, and what a server-side TLS
  handshake over this connection would give (\<open>None\<close> when it fails, otherwise the
  TLS-wrapped connection with its own decrypted stream).
\<close>

datatype conn =
  Conn (unread: "byte list") (written: "byte list") (writable: bool) (tls_session: "conn option")

text \<open>\<^verbatim>\<open>io.ReadFull(conn, buf)\<close> with \<^verbatim>\<open>len(buf) = n\<close>: exactly \<open>n\<close> bytes or an error.\<close>

fun ReadFull :: "conn \<Rightarrow> nat \<Rightarrow> (byte list \<times> conn) option" where
  "ReadFull (Conn inp out ok tls) n =
     (if n \<le> length inp then Some (take n inp, Conn (drop n inp) out ok tls) else None)"

fun Write :: "conn \<Rightarrow> byte list \<Rightarrow> conn option" where
  "Write (Conn inp out ok tls) bs = (if ok then Some (Conn inp (out @ bs) ok tls) else None)"

text \<open>
  \<^verbatim>\<open>tlsConn := tls.Server(conn, h.TLSConfig); tlsConn.Handshake()\<close>
\<close>

definition tlsServerHandshake :: "conn \<Rightarrow> conn option" where
  "tlsServerHandshake conn = tls_session conn"

fun tls_depth :: "conn \<Rightarrow> nat" where
  "tls_depth (Conn inp out ok None) = 0"
| "tls_depth (Conn inp out ok (Some t)) = Suc (tls_depth t)"

section \<open>The startup message codec\<close>

datatype error =
    ReadLengthFailed      \<comment> \<open>failed to read message length (io-error)\<close>
  | InvalidLength int     \<comment> \<open>invalid message length (invalid-frame)\<close>
  | ReadBodyFailed        \<comment> \<open>failed to read message body (io-error)\<close>
  | WriteSSLFailed        \<comment> \<open>failed to write SSL response\<close>
  | TLSHandshakeFailed    \<comment> \<open>tls handshake failed\<close>
  | PayloadTooShort       \<comment> \<open>payload too short\<close>
  | Malformed             \<comment> \<open>malformed startup message\<close>
  | Panic                 \<comment> \<open>a run-time panic: index or slice bound out of range\<close>

definition sslRequestCode :: int where
  "sslRequestCode = 80877103"

text \<open>
  \<^verbatim>\<open>bytes.Buffer.ReadString(delim)\<close>: the bytes up to and including the first delimiter,
  or, when there is none, all the remaining bytes and \<^verbatim>\<open>io.EOF\<close>. The result is the line,
  whether the error is \<^verbatim>\<open>io.EOF\<close>, and the buffer that is left.
\<close>

definition ReadString :: "byte list \<Rightarrow> byte \<Rightarrow> byte list \<times> bool \<times> byte list" where
  "ReadString buf delim =
     (case dropWhile (\<lambda>c. c \<noteq> delim) buf of
        [] \<Rightarrow> (buf, True, [])
      | d # rest \<Rightarrow> (takeWhile (\<lambda>c. c \<noteq> delim) buf @ [d], False, rest))"

lemma ReadString_shorter:
  "ReadString buf delim = (line, False, rest) \<Longrightarrow> length rest < length buf"
proof -
  assume a: "ReadString buf delim = (line, False, rest)"
  have "length (dropWhile (\<lambda>c. c \<noteq> delim) buf) \<le> length buf"
    by (rule length_dropWhile_le)
  with a show ?thesis
    by (auto simp: ReadString_def split: list.splits)
qed

text \<open>
  The parameter loop, lines 111--132 of \<^verbatim>\<open>Handshake\<close>. \<^verbatim>\<open>ReadString\<close> of a buffer
  returns no error other than \<^verbatim>\<open>io.EOF\<close>, so the branch \<^verbatim>\<open>if err != nil\<close> after the
  test for \<^verbatim>\<open>io.EOF\<close> is never taken. \<^verbatim>\<open>key[:len(key)-1]\<close> is \<open>butlast key\<close>.
\<close>

function readParams :: "byte list \<Rightarrow> params \<Rightarrow> error + params" where
  "readParams buf params =
     (case ReadString buf NUL of
        (key, eof, buf1) \<Rightarrow>
          if eof then Inr params
          else if butlast key = [] then Inr params
          else (case ReadString buf1 NUL of
                  (val, eof2, buf2) \<Rightarrow>
                    if eof2 then Inl Malformed
                    else readParams buf2 (params(butlast key \<mapsto> butlast val))))"
  by pat_completeness auto
termination
  by (relation "measure (\<lambda>(buf, params). length buf)")
     (fastforce dest: ReadString_shorter ReadString_shorter [OF sym])+

declare readParams.simps [simp del]

text \<open>Lines 78--80: the test that sends a frame down the \<^verbatim>\<open>SSLRequest\<close> branch.\<close>

definition isSSLRequest :: "byte list \<Rightarrow> bool" where
  "isSSLRequest payload \<longleftrightarrow>
     length payload \<ge> 4 \<and>
     (case Uint32 (take 4 payload) of None \<Rightarrow> False | Some code \<Rightarrow> sint code = sslRequestCode)"

text \<open>
  What one frame is taken for: an \<^verbatim>\<open>SSLRequest\<close>, or a startup message with its
  parameters.
\<close>

datatype message = SSLRequest | StartupMessage params

text \<open>
  Lines 60--80 and 102--132 of \<^verbatim>\<open>Handshake\<close>: read the header and the payload, test
  for the \<^verbatim>\<open>SSLRequest\<close> code, and otherwise read the parameters. The result carries
  the header, the payload and the connection after the reads. \<^verbatim>\<open>length\<close> is an
  \<^verbatim>\<open>int32\<close>, so the header is read as a signed number.
\<close>

definition decodeFrame :: "conn \<Rightarrow> error + (message \<times> byte list \<times> byte list \<times> conn)" where
  "decodeFrame conn =
     (case ReadFull conn 4 of
        None \<Rightarrow> Inl ReadLengthFailed
      | Some (header, conn1) \<Rightarrow>
          (case Uint32 header of
             None \<Rightarrow> Inl Panic
           | Some h \<Rightarrow>
               (let len = sint h in
                if len < 4 then Inl (InvalidLength len)
                else (case ReadFull conn1 (nat (len - 4)) of
                        None \<Rightarrow> Inl ReadBodyFailed
                      | Some (payload, conn2) \<Rightarrow>
                          if isSSLRequest payload then Inr (SSLRequest, header, payload, conn2)
                          else if length payload < 4 then Inl PayloadTooShort
                          else (case readParams (drop 4 payload) Map.empty of
                                  Inl e \<Rightarrow> Inl e
                                | Inr params \<Rightarrow>
                                    Inr (StartupMessage params, header, payload, conn2))))))"

text \<open>
  \<^verbatim>\<open>rebuildStartupMessage\<close>, lines 225--250. The two \<^verbatim>\<open>range\<close> loops may visit the map
  in different orders \<open>ks1\<close> and \<open>ks2\<close>. \<^verbatim>\<open>totalLength\<close> is a Go \<^verbatim>\<open>int\<close>, here a natural
  number; \<^verbatim>\<open>uint32(totalLength)\<close> keeps its low 32 bits.
\<close>

fun write_entries ::
  "(string \<times> string) list \<Rightarrow> byte list \<Rightarrow> nat \<Rightarrow> (byte list \<times> nat) option" where
  "write_entries [] newMessage offset = Some (newMessage, offset)"
| "write_entries ((key, val) # rest) newMessage offset =
     do {
       m1 \<leftarrow> copy_at newMessage offset key;
       m2 \<leftarrow> set_at m1 (offset + length key) NUL;
       m3 \<leftarrow> copy_at m2 (offset + length key + 1) val;
       m4 \<leftarrow> set_at m3 (offset + length key + 1 + length val) NUL;
       write_entries rest m4 (offset + length key + 1 + length val + 1)
     }"

definition rebuildStartupMessage ::
  "32 word \<Rightarrow> params \<Rightarrow> string list \<Rightarrow> string list \<Rightarrow> byte list option" where
  "rebuildStartupMessage protocolVersion params ks1 ks2 =
     (let totalLength =
            fold (\<lambda>(key, val) total. total + (length key + 1 + length val + 1))
              (range_of params ks1) (4 + 4) + 1;
          newMessage = make_bytes totalLength
      in do {
        m1 \<leftarrow> PutUint32 newMessage 0 (word_of_nat totalLength);
        m2 \<leftarrow> PutUint32 m1 4 protocolVersion;
        (m3, offset) \<leftarrow> write_entries (range_of params ks2) m2 8;
        set_at m3 offset NUL
      })"

text \<open>
  For the proofs: the bytes of a sequence of entries on the wire, each key and each value
  followed by a zero byte, and the number of bytes one key of a map takes there.
\<close>

fun wire :: "(string \<times> string) list \<Rightarrow> byte list" where
  "wire [] = []"
| "wire ((k, v) # es) = k @ [NUL] @ v @ [NUL] @ wire es"

definition entry_size :: "params \<Rightarrow> string \<Rightarrow> nat" where
  "entry_size m k = (case m k of None \<Rightarrow> 0 | Some v \<Rightarrow> length k + 1 + length v + 1)"

text \<open>
  Also for the proofs: a map whose keys are not empty and whose keys and values hold no
  zero byte, the number of bytes all entries of a map take on the wire, and the map after
  storing a sequence of entries one by one.
\<close>

definition nul_free :: "params \<Rightarrow> bool" where
  "nul_free m \<longleftrightarrow> (\<forall>k v. m k = Some v \<longrightarrow> k \<noteq> [] \<and> NUL \<notin> set k \<and> NUL \<notin> set v)"

definition params_size :: "params \<Rightarrow> nat" where
  "params_size m = sum (entry_size m) (dom m)"

fun store :: "(string \<times> string) list \<Rightarrow> params \<Rightarrow> params" where
  "store [] m = m"
| "store ((k, v) # es) m = store es (m(k \<mapsto> v))"

section \<open>The tenant address parser\<close>

text \<open>
  Lines 134--157 of \<^verbatim>\<open>Handshake\<close>: the \<^verbatim>\<open>user\<close> parameter is split on dots and the
  derived keys are stored in the same map. The indices \<^verbatim>\<open>len(parts)-1\<close> and
  \<^verbatim>\<open>len(parts)-2\<close> are only used under the guards \<^verbatim>\<open>len(parts) >= 2\<close> and
  \<^verbatim>\<open>len(parts) >= 3\<close>, so they are in range.
\<close>

definition tenantParse :: "params \<Rightarrow> params" where
  "tenantParse params =
     (case params ''user'' of
        None \<Rightarrow> params
      | Some user \<Rightarrow>
          (let parts = Split user CHR ''.'' in
           if length parts \<ge> 2 then
             if parts ! (length parts - 1) = ''pool'' then
               (let params1 = params(''pooled'' \<mapsto> ''true'') in
                if length parts \<ge> 3 then
                  params1(''deployment_id'' \<mapsto> parts ! (length parts - 2),
                          ''username'' \<mapsto> Join (take (length parts - 2) parts) ''.'')
                else params1)
             else
               params(''pooled'' \<mapsto> ''false'',
                      ''deployment_id'' \<mapsto> parts ! (length parts - 1),
                      ''username'' \<mapsto> Join (take (length parts - 1) parts) ''.'')
           else params(''pooled'' \<mapsto> ''false'')))"

section \<open>The protocol handshaker\<close>

text \<open>
  Lines 174--182: the copy of the parameters that is encoded again, without the three
  derived keys and with \<^verbatim>\<open>user\<close> set to the new user name. The loop only fills a map, so
  the order in which it visits the entries does not show.
\<close>

definition buildParams :: "params \<Rightarrow> string \<Rightarrow> params" where
  "buildParams params newUser =
     (\<lambda>k. if k \<noteq> ''deployment_id'' \<and> k \<noteq> ''pooled'' \<and> k \<noteq> ''username'' then params k
          else None)(''user'' \<mapsto> newUser)"

text \<open>
  Lines 215--217: \<^verbatim>\<open>fullMsg := make([]byte, len(header)+len(payload))\<close>, then the two
  copies, the second one at the fixed offset 4.
\<close>

definition fullMsg :: "byte list \<Rightarrow> byte list \<Rightarrow> byte list option" where
  "fullMsg header payload =
     do {
       m1 \<leftarrow> copy_at (make_bytes (length header + length payload)) 0 header;
       copy_at m1 4 payload
     }"

text \<open>
  Lines 167--222: the bytes to replay are stored under \<^verbatim>\<open>_raw_startup_message\<close> when the
  parameters have a \<^verbatim>\<open>user\<close>, and the map is returned as the routing metadata together
  with the connection.
\<close>

definition storeReplay ::
  "byte list \<Rightarrow> byte list \<Rightarrow> params \<Rightarrow> conn \<Rightarrow> string list \<Rightarrow> string list
     \<Rightarrow> error + (params \<times> conn)" where
  "storeReplay header payload params conn ks1 ks2 =
     (case params ''user'' of
        None \<Rightarrow> Inr (params, conn)
      | Some originalUser \<Rightarrow>
          (case params ''username'' of
             None \<Rightarrow>
               (case fullMsg header payload of
                  None \<Rightarrow> Inl Panic
                | Some msg \<Rightarrow> Inr (params(''_raw_startup_message'' \<mapsto> msg), conn))
           | Some newUser \<Rightarrow>
               if newUser \<noteq> originalUser then
                 (case Uint32 (take 4 payload) of
                    None \<Rightarrow> Inl Panic
                  | Some protocolVersion \<Rightarrow>
                      (case rebuildStartupMessage protocolVersion
                              (buildParams params newUser) ks1 ks2 of
                         None \<Rightarrow> Inl Panic
                       | Some rebuiltMsg \<Rightarrow>
                           Inr (params(''_raw_startup_message'' \<mapsto> rebuiltMsg), conn)))
               else
                 (case fullMsg header payload of
                    None \<Rightarrow> Inl Panic
                  | Some msg \<Rightarrow> Inr (params(''_raw_startup_message'' \<mapsto> msg), conn))))"

lemma decodeFrame_tls_session:
  "decodeFrame conn = Inr (m, header, payload, conn2) \<Longrightarrow> tls_session conn2 = tls_session conn"
  by (cases conn)
     (auto simp: decodeFrame_def Let_def split: option.splits if_splits sum.splits prod.splits)

lemma Write_tls_session: "Write conn bs = Some conn3 \<Longrightarrow> tls_session conn3 = tls_session conn"
  by (cases conn) (auto split: if_splits)

lemma tls_depth_session: "tls_session conn = Some t \<Longrightarrow> tls_depth t < tls_depth conn"
  by (cases conn) auto

text \<open>
  \<^verbatim>\<open>Handshake\<close>, lines 59--223. On an \<^verbatim>\<open>SSLRequest\<close> the byte \<^verbatim>\<open>'S'\<close> is written, the
  connection is upgraded and the handshake starts again on the TLS connection. When the
  TLS handshake fails, the error response goes to a connection that is then dropped with
  the error, so it does not show in the result. \<open>ks1\<close> and \<open>ks2\<close> are the orders in which
  the two loops of \<^verbatim>\<open>rebuildStartupMessage\<close> visit the map.
\<close>

function Handshake :: "conn \<Rightarrow> string list \<Rightarrow> string list \<Rightarrow> error + (params \<times> conn)" where
  "Handshake conn ks1 ks2 =
     (case decodeFrame conn of
        Inl e \<Rightarrow> Inl e
      | Inr (SSLRequest, header, payload, conn2) \<Rightarrow>
          (case Write conn2 ''S'' of
             None \<Rightarrow> Inl WriteSSLFailed
           | Some conn3 \<Rightarrow>
               (case tlsServerHandshake conn3 of
                  None \<Rightarrow> Inl TLSHandshakeFailed
                | Some tlsConn \<Rightarrow> Handshake tlsConn ks1 ks2))
      | Inr (StartupMessage params, header, payload, conn2) \<Rightarrow>
          storeReplay header payload (tenantParse params) conn2 ks1 ks2)"
  by pat_completeness auto
termination
proof (relation "measure (\<lambda>(conn, ks1, ks2). tls_depth conn)", goal_cases)
  case 1
  show ?case by simp
next
  case (2 conn ks1 ks2 r m rest header rest2 payload conn2 conn3 tlsConn)
  then have "decodeFrame conn = Inr (m, header, payload, conn2)"
    and "Write conn2 ''S'' = Some conn3"
    and "tls_session conn3 = Some tlsConn"
    by (simp_all add: tlsServerHandshake_def)
  then have "tls_depth tlsConn < tls_depth conn"
    using decodeFrame_tls_session Write_tls_session tls_depth_session by metis
  then show ?case by simp
qed

declare Handshake.simps [simp del]

text \<open>
  \<open>upgrades conn0 conn\<close>: starting on \<open>conn0\<close>, the handshake accepts zero or more
  \<^verbatim>\<open>SSLRequest\<close> frames, each followed by a TLS upgrade, and then continues on \<open>conn\<close>.
\<close>

inductive upgrades :: "conn \<Rightarrow> conn \<Rightarrow> bool" where
  here: "upgrades conn conn"
| upgrade: "decodeFrame conn0 = Inr (SSLRequest, header, payload, conn2) \<Longrightarrow>
     Write conn2 ''S'' = Some conn3 \<Longrightarrow> tlsServerHandshake conn3 = Some tlsConn \<Longrightarrow>
     upgrades tlsConn conn \<Longrightarrow> upgrades conn0 conn"

section \<open>The dispatch engine\<close>

text \<open>
  \<^verbatim>\<open>handleConnection\<close> in \<^verbatim>\<open>core/server.go\<close>, steps 1 to 3.5. The resolver and the
  dialer are interfaces of the server: a resolver maps the metadata to an address or
  fails (also on its deadline), a dial gives the backend connection or fails. The result
  is the error that ends the connection, or the client and the backend connection at the
  moment the two relay copies of step 4 are started.
\<close>

record server =
  Resolve :: "params \<Rightarrow> string option"
  Dial :: "string \<Rightarrow> conn option"

datatype conn_error =
    HandshakeFailed error
  | ResolutionFailed
  | DialFailed
  | ForwardFailed

definition handleConnection ::
  "server \<Rightarrow> conn \<Rightarrow> string list \<Rightarrow> string list \<Rightarrow> conn_error + (conn \<times> conn)" where
  "handleConnection s clientConn ks1 ks2 =
     (case Handshake clientConn ks1 ks2 of
        Inl e \<Rightarrow> Inl (HandshakeFailed e)
      | Inr (metadata, clientConn') \<Rightarrow>
          (case Resolve s metadata of
             None \<Rightarrow> Inl ResolutionFailed
           | Some backendAddr \<Rightarrow>
               (case Dial s backendAddr of
                  None \<Rightarrow> Inl DialFailed
                | Some backendConn \<Rightarrow>
                    (case metadata ''_raw_startup_message'' of
                       None \<Rightarrow> Inr (clientConn', backendConn)
                     | Some rawMsg \<Rightarrow>
                         (case Write backendConn rawMsg of
                            None \<Rightarrow> Inl ForwardFailed
                          | Some backendConn' \<Rightarrow> Inr (clientConn', backendConn'))))))"

section \<open>Example frames\<close>

text \<open>
  Startup frames of protocol version 3.0 with one parameter each: \<open>user = bob\<close>,
  \<open>user = x.pool\<close>, \<open>database = app\<close>, and a parameter named like the reserved replay key.
  The example server resolves every metadata map to one address and dials a fresh backend
  connection to which nothing has been written.
\<close>

definition bob_frame :: "byte list" where
  "bob_frame = [NUL, NUL, NUL, CHR 0x12, NUL, CHR 0x03, NUL, NUL]
                 @ ''user'' @ [NUL] @ ''bob'' @ [NUL, NUL]"

definition pool_frame :: "byte list" where
  "pool_frame = [NUL, NUL, NUL, CHR 0x15, NUL, CHR 0x03, NUL, NUL]
                  @ ''user'' @ [NUL] @ ''x.pool'' @ [NUL, NUL]"

definition app_frame :: "byte list" where
  "app_frame = [NUL, NUL, NUL, CHR 0x16, NUL, CHR 0x03, NUL, NUL]
                 @ ''database'' @ [NUL] @ ''app'' @ [NUL, NUL]"

definition smuggle_frame :: "byte list" where
  "smuggle_frame = [NUL, NUL, NUL, CHR 0x20, NUL, CHR 0x03, NUL, NUL]
                     @ ''_raw_startup_message'' @ [NUL] @ ''x'' @ [NUL, NUL]"

definition example_server :: server where
  "example_server =
     \<lparr>Resolve = (\<lambda>metadata. Some ''10.0.0.1:5432''),
      Dial = (\<lambda>backendAddr. Some (Conn [] [] True None))\<rparr>"

text \<open>
  Two frames whose user is rewritten: \<open>user = alice.dep42\<close> with \<open>database = app\<close>, and
  \<open>user = a.b\<close> with a parameter named like the reserved replay key; and the frame that
  the handshake builds for the backend from the second one.
\<close>

definition alice_frame :: "byte list" where
  "alice_frame = [NUL, NUL, NUL, CHR 0x27, NUL, CHR 0x03, NUL, NUL]
                   @ ''user'' @ [NUL] @ ''alice.dep42'' @ [NUL]
                   @ ''database'' @ [NUL] @ ''app'' @ [NUL, NUL]"

definition ab_smuggle_frame :: "byte list" where
  "ab_smuggle_frame = [NUL, NUL, NUL, CHR 0x29, NUL, CHR 0x03, NUL, NUL]
                        @ ''user'' @ [NUL] @ ''a.b'' @ [NUL]
                        @ ''_raw_startup_message'' @ [NUL] @ ''x'' @ [NUL, NUL]"

definition ab_smuggle_replay :: "byte list" where
  "ab_smuggle_replay = [NUL, NUL, NUL, CHR 0x27, NUL, CHR 0x03, NUL, NUL]
                         @ ''user'' @ [NUL] @ ''a'' @ [NUL]
                         @ ''_raw_startup_message'' @ [NUL] @ ''x'' @ [NUL, NUL]"

text \<open>
  A frame of 65540 bytes, more than 64 KiB, with no parameters and zero bytes up to its
  end; and a connection on which the client first sends an \<^verbatim>\<open>SSLRequest\<close> and then, over
  TLS, the frame with \<open>user = bob\<close>.
\<close>

definition big_frame :: "byte list" where
  "big_frame = [NUL, CHR 0x01, NUL, CHR 0x04, NUL, CHR 0x03, NUL, NUL] @ replicate 65532 NUL"

section \<open>Big-endian words\<close>

lemma length_be32: "length (be32 v) = 4"
  by (simp add: be32_def)

lemma take_bit_of_char_nat: "take_bit 8 (of_char c :: nat) = of_char c"
  by (simp add: take_bit_eq_mod)

lemma of_char_word: "(of_char c :: 32 word) = word_of_nat (of_char c)"
  by (simp add: of_nat_of_char)

lemma bit_of_char_word: "bit (of_char c :: 32 word) n \<longleftrightarrow> n < 8 \<and> bit (of_char c :: nat) n"
proof -
  have "bit (of_char c :: nat) n \<longleftrightarrow> n < 8 \<and> bit (of_char c :: nat) n"
    using bit_take_bit_iff [of 8 "of_char c :: nat" n] by (simp only: take_bit_of_char_nat)
  then show ?thesis
    by (auto simp: of_char_word bit_of_nat_iff simp del: of_nat_of_char)
qed

lemma unat_of_char_word: "unat (of_char c :: 32 word) = of_char c"
proof -
  have "(of_char c :: nat) < 256" by simp
  then have "(of_char c :: nat) < 2 ^ 32" by (rule less_trans) simp
  then show ?thesis
    by (simp add: of_char_word unat_of_nat del: of_nat_of_char)
qed

lemma char_of_byte: "take_bit 8 (w :: 32 word) = of_char c \<Longrightarrow> char_of (unat w) = c"
proof -
  assume a: "take_bit 8 w = (of_char c :: 32 word)"
  have "take_bit 8 (unat w) = unat (take_bit 8 w)"
    by (simp add: unsigned_take_bit_eq)
  also have "\<dots> = of_char c"
    by (simp add: a unat_of_char_word)
  finally have "char_of (take_bit 8 (unat w)) = c"
    by simp
  then show ?thesis
    by (simp add: char_of_take_bit_eq)
qed

lemma be32_Uint32_4: "Uint32 [b0, b1, b2, b3] = Some w \<Longrightarrow> be32 w = [b0, b1, b2, b3]"
proof -
  assume "Uint32 [b0, b1, b2, b3] = Some w"
  then have w: "w = of_char b3 OR push_bit 8 (of_char b2) OR push_bit 16 (of_char b1)
           OR push_bit 24 (of_char b0)" by simp
  have "take_bit 8 (drop_bit 24 w) = of_char b0"
    unfolding w by (rule bit_word_eqI) (auto simp: bit_simps bit_of_char_word)
  moreover have "take_bit 8 (drop_bit 16 w) = of_char b1"
    unfolding w by (rule bit_word_eqI) (auto simp: bit_simps bit_of_char_word)
  moreover have "take_bit 8 (drop_bit 8 w) = of_char b2"
    unfolding w by (rule bit_word_eqI) (auto simp: bit_simps bit_of_char_word)
  moreover have "take_bit 8 w = of_char b3"
    unfolding w by (rule bit_word_eqI) (auto simp: bit_simps bit_of_char_word)
  ultimately show ?thesis
    by (simp add: be32_def char_of_byte)
qed

lemma of_char_unat_word: "(of_char (char_of (unat (w :: 32 word))) :: 32 word) = take_bit 8 w"
proof -
  have "(of_char (char_of (unat w)) :: nat) = take_bit 8 (unat w)"
    by (simp add: take_bit_eq_mod)
  then have "(of_nat (of_char (char_of (unat w)) :: nat) :: 32 word) = of_nat (take_bit 8 (unat w))"
    by simp
  then show ?thesis
    by (simp add: of_nat_of_char unsigned_take_bit_eq [symmetric] del: of_char_of)
qed

lemma Uint32_be32: "Uint32 (be32 v @ rest) = Some v"
proof -
  have "take_bit 8 v OR push_bit 8 (take_bit 8 (drop_bit 8 v))
          OR push_bit 16 (take_bit 8 (drop_bit 16 v))
          OR push_bit 24 (take_bit 8 (drop_bit 24 v)) = v"
  proof (rule bit_word_eqI)
    fix n assume "n < LENGTH(32)"
    then have "n < 8 \<or> (8 \<le> n \<and> n < 16) \<or> (16 \<le> n \<and> n < 24) \<or> (24 \<le> n \<and> n < 32)"
      by auto
    then show "bit (take_bit 8 v OR push_bit 8 (take_bit 8 (drop_bit 8 v))
          OR push_bit 16 (take_bit 8 (drop_bit 16 v))
          OR push_bit 24 (take_bit 8 (drop_bit 24 v))) n = bit v n"
      by (auto simp: bit_simps)
  qed
  then show ?thesis
    by (simp add: be32_def of_char_unat_word del: of_char_of)
qed

lemma Uint32_Some_iff: "Uint32 bs = Some w \<longleftrightarrow> 4 \<le> length bs \<and> take 4 bs = be32 w"
proof
  assume a: "Uint32 bs = Some w"
  then obtain b0 b1 b2 b3 r where bs: "bs = b0 # b1 # b2 # b3 # r"
    by (cases bs rule: Uint32.cases) auto
  with a have "Uint32 [b0, b1, b2, b3] = Some w" by simp
  then show "4 \<le> length bs \<and> take 4 bs = be32 w"
    by (simp add: bs be32_Uint32_4)
next
  assume "4 \<le> length bs \<and> take 4 bs = be32 w"
  then have "bs = be32 w @ drop 4 bs"
    by (metis append_take_drop_id)
  then show "Uint32 bs = Some w"
    by (metis Uint32_be32)
qed

lemma sint_code: "sint (w :: 32 word) = 80877103 \<longleftrightarrow> w = 80877103"
proof
  assume "sint w = 80877103"
  then have "(word_of_int (sint w) :: 32 word) = word_of_int 80877103" by simp
  then show "w = 80877103" by simp
next
  assume "w = 80877103"
  then show "sint w = 80877103" by simp
qed

lemma be32_code: "be32 80877103 = [CHR 0x04, CHR 0xD2, CHR 0x16, CHR 0x2F]"
proof -
  have "Uint32 [CHR 0x04, CHR 0xD2, CHR 0x16, CHR 0x2F] = Some 80877103" by simp
  then show ?thesis by (rule be32_Uint32_4)
qed

section \<open>Writing the entries into the buffer\<close>

lemma copy_at_app:
  "off = length pre \<Longrightarrow> length mid = length src \<Longrightarrow>
   copy_at (pre @ mid @ post) off src = Some (pre @ src @ post)"
  by (simp add: copy_at_def)

lemma set_at_app:
  "i = length pre \<Longrightarrow> set_at (pre @ x # post) i b = Some (pre @ b # post)"
  by (simp add: set_at_def)

lemma PutUint32_app:
  "off = length pre \<Longrightarrow> length mid = 4 \<Longrightarrow>
   PutUint32 (pre @ mid @ post) off v = Some (pre @ be32 v @ post)"
  by (simp add: PutUint32_def)

lemma split_mid:
  "length mid = a + Suc (c + Suc r) \<Longrightarrow>
   \<exists>ma x mc y mr. mid = ma @ x # mc @ y # mr \<and> length ma = a \<and> length mc = c \<and> length mr = r"
proof -
  assume l: "length mid = a + Suc (c + Suc r)"
  let ?ma = "take a mid" and ?r1 = "drop a mid"
  from l have "?r1 \<noteq> []" by simp
  then obtain x r2 where r1: "?r1 = x # r2" by (cases ?r1) auto
  with l have l2: "length r2 = c + Suc r"
    by (metis add_Suc_right diff_add_inverse length_Cons length_drop nat.inject)
  let ?mc = "take c r2" and ?r3 = "drop c r2"
  from l2 have "?r3 \<noteq> []" by simp
  then obtain y mr where r3: "?r3 = y # mr" by (cases ?r3) auto
  with l2 have "length mr = r"
    by (metis add_Suc_right diff_add_inverse length_Cons length_drop nat.inject)
  moreover have "mid = ?ma @ x # ?mc @ y # mr"
    by (metis append_take_drop_id r1 r3)
  moreover have "length ?ma = a" "length ?mc = c" using l l2 by simp_all
  ultimately show ?thesis by blast
qed

lemma write_entries_app:
  "length mid = length (wire es) \<Longrightarrow>
   write_entries es (pre @ mid @ post) (length pre) = Some (pre @ wire es @ post, length pre + length (wire es))"
proof (induction es arbitrary: pre mid)
  case Nil
  then show ?case by simp
next
  case (Cons e es)
  obtain k v where e: "e = (k, v)" by (cases e)
  from Cons.prems e have "length mid = length k + Suc (length v + Suc (length (wire es)))"
    by simp
  from split_mid [OF this] obtain ma x mc y mr where
    mid: "mid = ma @ x # mc @ y # mr" and la: "length ma = length k" and lc: "length mc = length v"
    and lr: "length mr = length (wire es)" by blast
  have 1: "copy_at (pre @ mid @ post) (length pre) k = Some (pre @ k @ x # mc @ y # mr @ post)"
    using copy_at_app [of "length pre" pre ma k "x # mc @ y # mr @ post"] la by (simp add: mid)
  have 2: "set_at (pre @ k @ x # mc @ y # mr @ post) (length pre + length k) NUL
             = Some (pre @ k @ NUL # mc @ y # mr @ post)"
    using set_at_app [of "length pre + length k" "pre @ k" x "mc @ y # mr @ post" NUL] by simp
  have 3: "copy_at (pre @ k @ NUL # mc @ y # mr @ post) (length pre + length k + 1) v
             = Some (pre @ k @ NUL # v @ y # mr @ post)"
    using copy_at_app [of "length pre + length k + 1" "pre @ k @ [NUL]" mc v "y # mr @ post"] lc
    by simp
  have 4: "set_at (pre @ k @ NUL # v @ y # mr @ post) (length pre + length k + 1 + length v) NUL
             = Some (pre @ k @ NUL # v @ NUL # mr @ post)"
    using set_at_app [of "length pre + length k + 1 + length v" "pre @ k @ NUL # v" y "mr @ post" NUL]
    by simp
  have 5: "write_entries es ((pre @ k @ NUL # v @ [NUL]) @ mr @ post) (length (pre @ k @ NUL # v @ [NUL]))
             = Some ((pre @ k @ NUL # v @ [NUL]) @ wire es @ post,
                     length (pre @ k @ NUL # v @ [NUL]) + length (wire es))"
    by (rule Cons.IH [OF lr])
  show ?case
    using 1 2 3 4 5 by (simp add: e add.assoc)
qed

lemma length_wire_range_of: "length (wire (range_of m ks)) = sum_list (map (entry_size m) ks)"
  by (induction ks) (auto simp: range_of_def entry_size_def split: option.splits)

lemma length_wire_iteration_order:
  "iteration_order m ks \<Longrightarrow> length (wire (range_of m ks)) = sum (entry_size m) (dom m)"
  by (simp add: length_wire_range_of iteration_order_def sum_list_distinct_conv_sum_set)

lemma fold_total:
  "fold (\<lambda>(key, val) total. total + (length key + 1 + length val + 1)) es n = n + length (wire es)"
  by (induction es arbitrary: n) auto

lemma make_bytes_split: "make_bytes (4 + 4 + n + 1) = replicate 4 NUL @ replicate 4 NUL @ replicate n NUL @ [NUL]"
  unfolding make_bytes_def replicate_add by simp

lemma rebuildStartupMessage_bytes:
  assumes "iteration_order m ks1" and "iteration_order m ks2"
  shows "rebuildStartupMessage v m ks1 ks2 =
           Some (be32 (word_of_nat (4 + 4 + length (wire (range_of m ks2)) + 1)) @ be32 v
                 @ wire (range_of m ks2) @ [NUL])"
proof -
  let ?es = "range_of m ks2"
  let ?n = "length (wire ?es)"
  let ?len = "be32 (word_of_nat (4 + 4 + ?n + 1))"
  have n: "length (wire (range_of m ks1)) = ?n"
    using assms by (simp add: length_wire_iteration_order)
  have 1: "PutUint32 (make_bytes (4 + 4 + ?n + 1)) 0 (word_of_nat (4 + 4 + ?n + 1))
             = Some (?len @ replicate 4 NUL @ replicate ?n NUL @ [NUL])"
    using PutUint32_app [of 0 "[]" "replicate 4 NUL" "replicate 4 NUL @ replicate ?n NUL @ [NUL]"]
    unfolding make_bytes_split by simp
  have 2: "PutUint32 (?len @ replicate 4 NUL @ replicate ?n NUL @ [NUL]) 4 v
             = Some (?len @ be32 v @ replicate ?n NUL @ [NUL])"
    using PutUint32_app [of 4 ?len "replicate 4 NUL" "replicate ?n NUL @ [NUL]" v]
    by (simp add: length_be32)
  have 3: "write_entries ?es (?len @ be32 v @ replicate ?n NUL @ [NUL]) 8
             = Some (?len @ be32 v @ wire ?es @ [NUL], 8 + ?n)"
    using write_entries_app [of "replicate ?n NUL" ?es "?len @ be32 v" "[NUL]"]
    by (simp add: length_be32)
  have 4: "set_at (?len @ be32 v @ wire ?es @ [NUL]) (8 + ?n) NUL
             = Some (?len @ be32 v @ wire ?es @ [NUL])"
    using set_at_app [of "8 + ?n" "?len @ be32 v @ wire ?es" NUL "[]" NUL]
    by (simp add: length_be32)
  show ?thesis
    unfolding rebuildStartupMessage_def Let_def fold_total n
    by (simp only: 1 2 3 4 bind.bind_lunit prod.case)
qed

section \<open>The parameter loop\<close>

lemma ReadString_found:
  "d \<notin> set s \<Longrightarrow> ReadString (s @ d # rest) d = (s @ [d], False, rest)"
proof -
  assume a: "d \<notin> set s"
  then have "dropWhile (\<lambda>c. c \<noteq> d) (s @ d # rest) = d # rest"
    by (subst dropWhile_append2) auto
  moreover from a have "takeWhile (\<lambda>c. c \<noteq> d) (s @ d # rest) = s"
    by (subst takeWhile_append2) auto
  ultimately show ?thesis by (simp add: ReadString_def)
qed

lemma ReadString_not_eof:
  assumes "ReadString buf d = (line, False, rest)"
  shows "\<exists>s. line = s @ [d] \<and> d \<notin> set s \<and> buf = s @ d # rest"
proof -
  let ?P = "\<lambda>c. c \<noteq> d"
  from assms obtain x where dw: "dropWhile ?P buf = x # rest"
    and line: "line = takeWhile ?P buf @ [x]"
    by (auto simp: ReadString_def split: list.splits)
  have "\<not> ?P (hd (dropWhile ?P buf))"
    by (rule hd_dropWhile) (simp add: dw)
  then have x: "x = d" by (simp add: dw)
  have "buf = takeWhile ?P buf @ dropWhile ?P buf" by simp
  then have "buf = takeWhile ?P buf @ d # rest" by (simp only: dw x)
  moreover have "d \<notin> set (takeWhile ?P buf)"
    by (auto dest: set_takeWhileD)
  ultimately show ?thesis using line x by blast
qed

lemma readParams_Inr_cases:
  assumes "readParams buf acc = Inr m"
  shows "m = acc \<or>
         (\<exists>k v buf2. buf = k @ NUL # v @ NUL # buf2 \<and> k \<noteq> [] \<and> NUL \<notin> set k \<and> NUL \<notin> set v
            \<and> readParams buf2 (acc(k \<mapsto> v)) = Inr m)"
proof -
  obtain key eof buf1 where r1: "ReadString buf NUL = (key, eof, buf1)"
    by (cases "ReadString buf NUL") auto
  show ?thesis
  proof (cases "eof \<or> butlast key = []")
    case True
    with assms r1 show ?thesis
      by (auto simp: readParams.simps [of buf acc] split: if_splits)
  next
    case False
    then have ne: "\<not> eof" "butlast key \<noteq> []" by auto
    obtain val eof2 buf2 where r2: "ReadString buf1 NUL = (val, eof2, buf2)"
      by (cases "ReadString buf1 NUL") auto
    from assms r1 r2 ne have e2: "\<not> eof2"
      and rec: "readParams buf2 (acc(butlast key \<mapsto> butlast val)) = Inr m"
      by (auto simp: readParams.simps [of buf acc] split: if_splits)
    from r1 ne have "ReadString buf NUL = (key, False, buf1)" by simp
    from ReadString_not_eof [OF this]
    obtain k where k: "key = k @ [NUL]" "NUL \<notin> set k" "buf = k @ NUL # buf1"
      by blast
    from r2 e2 have "ReadString buf1 NUL = (val, False, buf2)" by simp
    from ReadString_not_eof [OF this]
    obtain v where v: "val = v @ [NUL]" "NUL \<notin> set v" "buf1 = v @ NUL # buf2"
      by blast
    from k v ne rec show ?thesis by auto
  qed
qed

lemma readParams_wire_step:
  assumes "k \<noteq> []" "NUL \<notin> set k" "NUL \<notin> set v"
  shows "readParams (k @ NUL # v @ NUL # buf2) acc = readParams buf2 (acc(k \<mapsto> v))"
  using assms
  by (subst readParams.simps) (simp add: ReadString_found)

lemma readParams_end: "readParams (NUL # rest) acc = Inr acc"
  using ReadString_found [of NUL "[]" rest]
  by (subst readParams.simps) simp

lemma params_size_update:
  assumes "finite (dom acc)"
  shows "params_size (acc(k \<mapsto> v)) \<le> params_size acc + (length k + 1 + length v + 1)"
proof -
  have d: "dom (acc(k \<mapsto> v)) = insert k (dom acc)"
    by simp
  have "sum (entry_size (acc(k \<mapsto> v))) (dom (acc(k \<mapsto> v)))
          = entry_size (acc(k \<mapsto> v)) k + sum (entry_size (acc(k \<mapsto> v))) (dom acc - {k})"
    unfolding d using assms by (rule sum.insert_remove)
  moreover have "sum (entry_size (acc(k \<mapsto> v))) (dom acc - {k}) = sum (entry_size acc) (dom acc - {k})"
    by (rule sum.cong) (auto simp: entry_size_def)
  moreover have "sum (entry_size acc) (dom acc - {k}) \<le> sum (entry_size acc) (dom acc)"
    using assms by (intro sum_mono2) auto
  moreover have "entry_size (acc(k \<mapsto> v)) k = length k + 1 + length v + 1"
    by (simp add: entry_size_def)
  ultimately show ?thesis
    unfolding params_size_def by linarith
qed

lemma nul_free_update:
  "nul_free acc \<Longrightarrow> k \<noteq> [] \<Longrightarrow> NUL \<notin> set k \<Longrightarrow> NUL \<notin> set v \<Longrightarrow> nul_free (acc(k \<mapsto> v))"
  by (auto simp: nul_free_def)

lemma readParams_props:
  "readParams buf acc = Inr m \<Longrightarrow> finite (dom acc) \<Longrightarrow> nul_free acc \<Longrightarrow>
   finite (dom m) \<and> nul_free m \<and> params_size m \<le> params_size acc + length buf"
proof (induction buf arbitrary: acc rule: length_induct)
  case (1 buf)
  from readParams_Inr_cases [OF "1.prems"(1)] show ?case
  proof
    assume "m = acc"
    with "1.prems" show ?thesis by simp
  next
    assume "\<exists>k v buf2. buf = k @ NUL # v @ NUL # buf2 \<and> k \<noteq> [] \<and> NUL \<notin> set k \<and> NUL \<notin> set v
            \<and> readParams buf2 (acc(k \<mapsto> v)) = Inr m"
    then obtain k v buf2 where buf: "buf = k @ NUL # v @ NUL # buf2"
      and kv: "k \<noteq> []" "NUL \<notin> set k" "NUL \<notin> set v"
      and rec: "readParams buf2 (acc(k \<mapsto> v)) = Inr m" by blast
    have "length buf2 < length buf" by (simp add: buf)
    moreover have "finite (dom (acc(k \<mapsto> v)))" using "1.prems"(2) by simp
    moreover have "nul_free (acc(k \<mapsto> v))" using "1.prems"(3) kv by (rule nul_free_update)
    ultimately have ih: "finite (dom m) \<and> nul_free m
        \<and> params_size m \<le> params_size (acc(k \<mapsto> v)) + length buf2"
      using "1.IH" rec by blast
    have "params_size (acc(k \<mapsto> v)) + length buf2 \<le> params_size acc + length buf"
      using params_size_update [OF "1.prems"(2), of k v] by (simp add: buf)
    with ih show ?thesis by linarith
  qed
qed

lemma readParams_wire:
  "\<forall>(k, v) \<in> set es. k \<noteq> [] \<and> NUL \<notin> set k \<and> NUL \<notin> set v \<Longrightarrow>
   readParams (wire es @ NUL # rest) acc = Inr (store es acc)"
proof (induction es arbitrary: acc)
  case Nil
  then show ?case by (simp add: readParams_end)
next
  case (Cons e es)
  obtain k v where e: "e = (k, v)" by (cases e)
  with Cons.prems have kv: "k \<noteq> []" "NUL \<notin> set k" "NUL \<notin> set v" by auto
  have "readParams (wire (e # es) @ NUL # rest) acc
          = readParams (wire es @ NUL # rest) (acc(k \<mapsto> v))"
    using readParams_wire_step [OF kv] by (simp add: e)
  also have "\<dots> = Inr (store es (acc(k \<mapsto> v)))"
    using Cons.prems by (intro Cons.IH) simp
  finally show ?case by (simp only: e store.simps)
qed

lemma store_range_of: "store (range_of m ks) acc = acc ++ (m |` set ks)"
proof (induction ks arbitrary: acc)
  case Nil
  then show ?case by (simp add: range_of_def)
next
  case (Cons k ks)
  have r: "range_of m (k # ks) = (case m k of None \<Rightarrow> [] | Some v \<Rightarrow> [(k, v)]) @ range_of m ks"
    by (simp add: range_of_def)
  show ?case
  proof (cases "m k")
    case None
    have "m |` set (k # ks) = m |` set ks"
      by (rule ext) (auto simp: restrict_map_def None)
    with None Cons.IH show ?thesis by (simp add: r)
  next
    case (Some v)
    have "acc(k \<mapsto> v) ++ (m |` set ks) = acc ++ (m |` set (k # ks))"
      by (rule ext) (auto simp: restrict_map_def map_add_def Some split: option.splits)
    moreover have "store (range_of m (k # ks)) acc = store (range_of m ks) (acc(k \<mapsto> v))"
      by (simp add: r Some)
    ultimately show ?thesis by (simp only: Cons.IH)
  qed
qed

lemma range_of_set: "(k, v) \<in> set (range_of m ks) \<Longrightarrow> m k = Some v"
  by (auto simp: range_of_def split: option.splits)

lemma readParams_range_of:
  assumes "iteration_order m ks" and "nul_free m"
  shows "readParams (wire (range_of m ks) @ NUL # rest) Map.empty = Inr m"
proof -
  have "\<forall>(k, v) \<in> set (range_of m ks). k \<noteq> [] \<and> NUL \<notin> set k \<and> NUL \<notin> set v"
    using assms(2) by (auto simp: nul_free_def dest: range_of_set)
  then have "readParams (wire (range_of m ks) @ NUL # rest) Map.empty
               = Inr (Map.empty ++ (m |` set ks))"
    by (simp add: readParams_wire store_range_of)
  moreover have "m |` set ks = m"
    using assms(1) by (intro ext) (auto simp: iteration_order_def restrict_map_def)
  ultimately show ?thesis by simp
qed

text \<open>
  When the loop fails: the bytes are a sequence of complete entries followed by a key, its
  zero byte, and a value that no zero byte ends.
\<close>

lemma ReadString_eof:
  "ReadString buf d = (line, True, rest) \<Longrightarrow> d \<notin> set buf"
proof -
  assume a: "ReadString buf d = (line, True, rest)"
  then have "dropWhile (\<lambda>c. c \<noteq> d) buf = []"
    by (auto simp: ReadString_def split: list.splits)
  then show ?thesis by (auto simp: dropWhile_eq_Nil_conv)
qed

lemma ReadString_no_delim:
  "d \<notin> set buf \<Longrightarrow> ReadString buf d = (buf, True, [])"
proof -
  assume "d \<notin> set buf"
  then have dw: "dropWhile (\<lambda>c. c \<noteq> d) buf = []" by (induction buf) auto
  show ?thesis by (simp only: ReadString_def dw list.case)
qed

lemma readParams_unterminated:
  assumes "\<forall>(k, v) \<in> set es. k \<noteq> [] \<and> NUL \<notin> set k \<and> NUL \<notin> set v"
    and "k \<noteq> []" "NUL \<notin> set k" "NUL \<notin> set v"
  shows "readParams (wire es @ k @ NUL # v) acc = Inl Malformed"
  using assms(1)
proof (induction es arbitrary: acc)
  case Nil
  from assms(2,3) have "ReadString (k @ NUL # v) NUL = (k @ [NUL], False, v)"
    by (simp add: ReadString_found)
  with assms(2,4) show ?case
    by (simp add: readParams.simps [of "k @ NUL # v"] ReadString_no_delim)
next
  case (Cons e es)
  obtain a b where e: "e = (a, b)" by (cases e)
  from Cons.prems e have "a \<noteq> []" "NUL \<notin> set a" "NUL \<notin> set b" by simp_all
  from readParams_wire_step [OF this, of "wire es @ k @ NUL # v" acc] Cons.IH Cons.prems
  show ?case by (simp add: e)
qed

lemma readParams_Malformed_cases:
  "readParams buf acc = Inl Malformed \<Longrightarrow>
   \<exists>es k v. (\<forall>(k, v) \<in> set es. k \<noteq> [] \<and> NUL \<notin> set k \<and> NUL \<notin> set v)
      \<and> k \<noteq> [] \<and> NUL \<notin> set k \<and> NUL \<notin> set v \<and> buf = wire es @ k @ NUL # v"
proof (induction buf arbitrary: acc rule: length_induct)
  case (1 buf)
  obtain key eof buf1 where k: "ReadString buf NUL = (key, eof, buf1)"
    by (cases "ReadString buf NUL")
  obtain val eof2 buf2 where v: "ReadString buf1 NUL = (val, eof2, buf2)"
    by (cases "ReadString buf1 NUL")
  from "1.prems" k have ne: "\<not> eof" "butlast key \<noteq> []"
    by (auto simp: readParams.simps [of buf] split: if_splits)
  from k ne(1) obtain s where s: "key = s @ [NUL]" "NUL \<notin> set s" "buf = s @ NUL # buf1"
    using ReadString_not_eof [of buf NUL key buf1] by auto
  from ne(2) s(1) have sne: "s \<noteq> []" by simp
  show ?case
  proof (cases eof2)
    case True
    with v have "NUL \<notin> set buf1" by (auto dest: ReadString_eof)
    with s sne have "(\<forall>(k, v) \<in> set []. k \<noteq> [] \<and> NUL \<notin> set k \<and> NUL \<notin> set v)
      \<and> s \<noteq> [] \<and> NUL \<notin> set s \<and> NUL \<notin> set buf1 \<and> buf = wire [] @ s @ NUL # buf1"
      by simp
    then show ?thesis by blast
  next
    case False
    with v obtain t where t: "val = t @ [NUL]" "NUL \<notin> set t" "buf1 = t @ NUL # buf2"
      using ReadString_not_eof [of buf1 NUL val buf2] by auto
    from "1.prems" k v ne False
    have r: "readParams buf2 (acc(butlast key \<mapsto> butlast val)) = Inl Malformed"
      by (simp add: readParams.simps [of buf])
    from s t have "length buf2 < length buf" by simp
    with "1.IH" r obtain es k' v' where
      es: "\<forall>(k, v) \<in> set es. k \<noteq> [] \<and> NUL \<notin> set k \<and> NUL \<notin> set v"
      and kv: "k' \<noteq> []" "NUL \<notin> set k'" "NUL \<notin> set v'" "buf2 = wire es @ k' @ NUL # v'"
      by blast
    from es s sne t kv
    have "(\<forall>(k, v) \<in> set ((s, t) # es). k \<noteq> [] \<and> NUL \<notin> set k \<and> NUL \<notin> set v)
      \<and> k' \<noteq> [] \<and> NUL \<notin> set k' \<and> NUL \<notin> set v' \<and> buf = wire ((s, t) # es) @ k' @ NUL # v'"
      by simp
    then show ?thesis by blast
  qed
qed

lemma readParams_Malformed_iff:
  "readParams buf acc = Inl Malformed \<longleftrightarrow>
   (\<exists>es k v. (\<forall>(k, v) \<in> set es. k \<noteq> [] \<and> NUL \<notin> set k \<and> NUL \<notin> set v)
      \<and> k \<noteq> [] \<and> NUL \<notin> set k \<and> NUL \<notin> set v \<and> buf = wire es @ k @ NUL # v)"
  using readParams_Malformed_cases [of buf acc] readParams_unterminated [of _ _ _ acc]
  by blast

section \<open>Decoding one frame\<close>

lemma Handshake_upgrades:
  "upgrades conn0 conn \<Longrightarrow> Handshake conn0 ks1 ks2 = Handshake conn ks1 ks2"
proof (induction rule: upgrades.induct)
  case (here conn)
  show ?case by simp
next
  case (upgrade conn0 header payload conn2 conn3 tlsConn conn)
  then show ?case
    by (simp add: Handshake.simps [of conn0])
qed

lemma Handshake_startup:
  "decodeFrame conn = Inr (StartupMessage params, header, payload, conn2) \<Longrightarrow>
   Handshake conn ks1 ks2 = storeReplay header payload (tenantParse params) conn2 ks1 ks2"
  by (simp add: Handshake.simps [of conn])

lemma ReadFull_Some:
  "ReadFull conn n = Some (bs, conn') \<longleftrightarrow>
     n \<le> length (unread conn) \<and> bs = take n (unread conn) \<and>
     conn' = Conn (drop n (unread conn)) (written conn) (writable conn) (tls_session conn)"
  by (cases conn) auto

lemma ReadFull_None: "ReadFull conn n = None \<longleftrightarrow> length (unread conn) < n"
  by (cases conn) auto

lemma Uint32_4: "length bs = 4 \<Longrightarrow> \<exists>h. Uint32 bs = Some h"
  by (cases bs rule: Uint32.cases) auto

lemma decodeFrame_Inr:
  assumes "decodeFrame conn = Inr (m, header, payload, conn2)"
  shows "\<exists>conn1 h. ReadFull conn 4 = Some (header, conn1) \<and> Uint32 header = Some h \<and> 4 \<le> sint h
           \<and> ReadFull conn1 (nat (sint h - 4)) = Some (payload, conn2)
           \<and> (if isSSLRequest payload then m = SSLRequest
                else 4 \<le> length payload \<and>
                     (\<exists>params. m = StartupMessage params
                        \<and> readParams (drop 4 payload) Map.empty = Inr params))"
  using assms
  by (auto simp: decodeFrame_def Let_def split: option.splits if_splits sum.splits prod.splits)

lemma word_of_nat_sint: "0 \<le> sint (h :: 32 word) \<Longrightarrow> word_of_nat (nat (sint h)) = h"
proof -
  assume "0 \<le> sint h"
  then have "(word_of_nat (nat (sint h)) :: 32 word) = word_of_int (sint h)"
    by (simp only: of_nat_nat)
  then show ?thesis by simp
qed

lemma decodeFrame_Startup:
  assumes "decodeFrame conn = Inr (StartupMessage params, header, payload, conn2)"
  shows "length header = 4 \<and> 4 \<le> length payload \<and> length (header @ payload) < 2 ^ 31
           \<and> Uint32 header = Some (word_of_nat (length (header @ payload)))
           \<and> \<not> isSSLRequest payload
           \<and> readParams (drop 4 payload) Map.empty = Inr params
           \<and> unread conn = header @ payload @ unread conn2
           \<and> written conn2 = written conn \<and> writable conn2 = writable conn
           \<and> tls_session conn2 = tls_session conn"
proof -
  from decodeFrame_Inr [OF assms] obtain conn1 h where
    r1: "ReadFull conn 4 = Some (header, conn1)" and h: "Uint32 header = Some h"
    and len: "4 \<le> sint h" and r2: "ReadFull conn1 (nat (sint h - 4)) = Some (payload, conn2)"
    and rest: "\<not> isSSLRequest payload" "4 \<le> length payload"
      "readParams (drop 4 payload) Map.empty = Inr params"
    by (auto split: if_splits)
  from r1 have 1: "4 \<le> length (unread conn)" "header = take 4 (unread conn)"
    "conn1 = Conn (drop 4 (unread conn)) (written conn) (writable conn) (tls_session conn)"
    by (simp_all add: ReadFull_Some)
  from r2 have "nat (sint h - 4) \<le> length (unread conn1) \<and>
      payload = take (nat (sint h - 4)) (unread conn1) \<and>
      conn2 = Conn (drop (nat (sint h - 4)) (unread conn1)) (written conn1) (writable conn1)
                (tls_session conn1)"
    by (simp only: ReadFull_Some)
  then have 2: "nat (sint h - 4) \<le> length (drop 4 (unread conn))"
    "payload = take (nat (sint h - 4)) (drop 4 (unread conn))"
    "conn2 = Conn (drop (nat (sint h - 4)) (drop 4 (unread conn))) (written conn) (writable conn) (tls_session conn)"
    by (simp_all add: 1(3) del: drop_drop)
  have u: "unread conn = header @ payload @ unread conn2"
    using 1 2 by (simp del: drop_drop)
  have lh: "length header = 4" using 1 by simp
  have lp: "length payload = nat (sint h - 4)" using 2 by simp
  have total: "length (header @ payload) = nat (sint h)"
    using lh lp len by simp
  have "sint h < 2 ^ 31" using sint_lt [of h] by simp
  moreover have "int (length (header @ payload)) = sint h"
    using total len by simp
  ultimately have "int (length (header @ payload)) < 2 ^ 31"
    by simp
  then have small: "length (header @ payload) < 2 ^ 31"
    by (metis of_nat_less_iff of_nat_numeral of_nat_power)
  have hw: "Uint32 header = Some (word_of_nat (length (header @ payload)))"
    using h len by (simp only: total) (simp add: word_of_nat_sint)
  have "written conn2 = written conn" "writable conn2 = writable conn"
    "tls_session conn2 = tls_session conn"
    using 2 by simp_all
  with lh rest small hw u show ?thesis by blast
qed

lemma sint_word_of_nat: "n < 2 ^ 31 \<Longrightarrow> sint (word_of_nat n :: 32 word) = int n"
proof -
  assume "n < 2 ^ 31"
  then have "int n < 2 ^ 31" by (metis of_nat_less_iff of_nat_numeral of_nat_power)
  then have "signed_take_bit (LENGTH(32) - 1) (int n) = int n"
    by (intro signed_take_bit_int_eq_self) auto
  then have "sint (word_of_int (int n) :: 32 word) = int n"
    by (simp only: sint_sbintrunc')
  then show ?thesis by simp
qed

lemma decodeFrame_bytes:
  assumes "length payload + 4 < 2 ^ 31" and "4 \<le> length payload" and "\<not> isSSLRequest payload"
    and "readParams (drop 4 payload) Map.empty = Inr params"
  shows "decodeFrame (Conn (be32 (word_of_nat (length payload + 4)) @ payload @ rest) out ok tls)
           = Inr (StartupMessage params, be32 (word_of_nat (length payload + 4)), payload,
                  Conn rest out ok tls)"
proof -
  define h :: "32 word" where "h = word_of_nat (length payload + 4)"
  have s: "sint h = int (length payload + 4)"
    unfolding h_def using assms(1) by (rule sint_word_of_nat)
  have 1: "ReadFull (Conn (be32 h @ payload @ rest) out ok tls) 4
             = Some (be32 h, Conn (payload @ rest) out ok tls)"
    by (simp add: length_be32)
  have 2: "Uint32 (be32 h) = Some h"
    using Uint32_be32 [of h "[]"] by simp
  have 3: "ReadFull (Conn (payload @ rest) out ok tls) (nat (sint h - 4))
             = Some (payload, Conn rest out ok tls)"
    by (simp add: s)
  have "decodeFrame (Conn (be32 h @ payload @ rest) out ok tls)
           = Inr (StartupMessage params, be32 h, payload, Conn rest out ok tls)"
    unfolding decodeFrame_def
    apply (simp only: 1 2 option.case prod.case Let_def)
    apply (simp only: 3 option.case prod.case)
    using assms(2-4) apply (simp add: s)
    done
  then show ?thesis by (simp only: h_def)
qed

section \<open>The SSLRequest test and the verbatim replay\<close>

lemma isSSLRequest_iff:
  "isSSLRequest payload \<longleftrightarrow>
     4 \<le> length payload \<and> take 4 payload = [CHR 0x04, CHR 0xD2, CHR 0x16, CHR 0x2F]"
proof (cases "4 \<le> length payload")
  case False
  then show ?thesis by (simp add: isSSLRequest_def)
next
  case True
  then have "length (take 4 payload) = 4" by simp
  then obtain w where w: "Uint32 (take 4 payload) = Some w"
    using Uint32_4 by blast
  then have t: "take 4 payload = be32 w"
    by (simp add: Uint32_Some_iff)
  have "isSSLRequest payload \<longleftrightarrow> w = 80877103"
    using True w by (simp add: isSSLRequest_def sslRequestCode_def sint_code)
  also have "\<dots> \<longleftrightarrow> be32 w = be32 80877103"
    using Uint32_be32 [of w "[]"] Uint32_be32 [of 80877103 "[]"] by auto
  finally show ?thesis
    using True by (simp add: t be32_code)
qed

lemma isSSLRequest_version:
  "Uint32 (take 4 payload) = Some v \<Longrightarrow> isSSLRequest payload \<longleftrightarrow> v = 80877103"
proof -
  assume v: "Uint32 (take 4 payload) = Some v"
  then have "4 \<le> length payload" by (simp add: Uint32_Some_iff)
  with v show ?thesis by (simp add: isSSLRequest_def sslRequestCode_def sint_code)
qed

lemma fullMsg_bytes: "length header = 4 \<Longrightarrow> fullMsg header payload = Some (header @ payload)"
proof -
  assume h: "length header = 4"
  have 1: "copy_at (make_bytes (length header + length payload)) 0 header
             = Some (header @ replicate (length payload) NUL)"
    using copy_at_app [of 0 "[]" "replicate (length header) NUL" header "replicate (length payload) NUL"]
    by (simp add: make_bytes_def replicate_add)
  have 2: "copy_at (header @ replicate (length payload) NUL) 4 payload = Some (header @ payload)"
    using copy_at_app [of 4 header "replicate (length payload) NUL" payload "[]"] h by simp
  show ?thesis by (simp add: fullMsg_def 1 2)
qed


section \<open>Properties of the tenant address parser\<close>

lemma Split_not_Nil: "Split s sep \<noteq> []"
  by (induction s) (auto split: list.splits)

lemma Join_length:
  "ps \<noteq> [] \<Longrightarrow> length (Join ps [c]) + 1 = sum_list (map (\<lambda>p. length p + 1) ps)"
  by (induction ps rule: induct_list012) auto

lemma Join_take_shorter:
  assumes "j < length ps" and "2 \<le> length ps"
  shows "length (Join (take j ps) [c]) < length (Join ps [c])"
proof -
  let ?f = "\<lambda>p. length p + 1"
  have ps: "ps \<noteq> []" using assms by auto
  have "drop j ps \<noteq> []" using assms by simp
  then obtain x xs where d: "drop j ps = x # xs" by (cases "drop j ps") auto
  have "sum_list (map ?f ps) = sum_list (map ?f (take j ps)) + sum_list (map ?f (drop j ps))"
    by (metis append_take_drop_id map_append sum_list_append)
  then have lt: "sum_list (map ?f (take j ps)) < sum_list (map ?f ps)"
    by (simp add: d)
  show ?thesis
  proof (cases "take j ps = []")
    case True
    then have "j = 0" using assms by auto
    have "length ps \<le> sum_list (map ?f ps)"
      by (induction ps) auto
    with assms(2) have "2 \<le> sum_list (map ?f ps)" by simp
    with Join_length [OF ps, of c] have "0 < length (Join ps [c])" by linarith
    with True show ?thesis by (simp only: Join.simps list.size)
  next
    case False
    from Join_length [OF False, of c] Join_length [OF ps, of c] lt show ?thesis by linarith
  qed
qed

lemma Split_set: "\<forall>p \<in> set (Split s c). set p \<subseteq> set s"
proof (induction s)
  case Nil
  then show ?case by simp
next
  case (Cons a s)
  obtain q qs where sp: "Split s c = q # qs"
    using Split_not_Nil [of s c] by (cases "Split s c") auto
  with Cons show ?case by auto
qed

lemma Join_set: "set (Join ps sep) \<subseteq> \<Union> (set ` set ps) \<union> set sep"
  by (induction ps sep rule: Join.induct) auto

lemma Join_Split: "Join (Split s c) [c] = s"
proof (induction s)
  case Nil
  show ?case by simp
next
  case (Cons a s)
  obtain p ps where sp: "Split s c = p # ps"
    using Split_not_Nil [of s c] by (cases "Split s c") auto
  with Cons show ?case
    by (cases ps) auto
qed

lemma tenantParse_other:
  "k \<noteq> ''pooled'' \<Longrightarrow> k \<noteq> ''deployment_id'' \<Longrightarrow> k \<noteq> ''username'' \<Longrightarrow>
   tenantParse params k = params k"
  by (simp add: tenantParse_def Let_def split: option.splits)

lemma tenantParse_user: "tenantParse params ''user'' = params ''user''"
  by (simp add: tenantParse_other)

lemma tenantParse_no_user: "params ''user'' = None \<Longrightarrow> tenantParse params = params"
  by (simp add: tenantParse_def)

lemma tenantParse_pooled:
  "params ''user'' = Some u \<Longrightarrow>
   tenantParse params ''pooled'' = Some ''true'' \<or> tenantParse params ''pooled'' = Some ''false''"
  by (simp add: tenantParse_def Let_def)

lemma tenantParse_two_pool:
  "params ''user'' = Some u \<Longrightarrow> Split u CHR ''.'' = [a, ''pool''] \<Longrightarrow>
   tenantParse params = params(''pooled'' \<mapsto> ''true'')"
  by (simp add: tenantParse_def Let_def)

lemma Join_take_Split_shorter:
  assumes "j < length (Split u c)" and "2 \<le> length (Split u c)"
  shows "length (Join (take j (Split u c)) [c]) < length u"
  using Join_take_shorter [OF assms, of c] by (simp add: Join_Split)

lemma Join_take_Split_set: "set (Join (take j (Split u c)) [c]) \<subseteq> insert c (set u)"
proof -
  have "\<Union> (set ` set (take j (Split u c))) \<subseteq> set u"
    using Split_set [of u c] by (auto dest: in_set_takeD)
  with Join_set [of "take j (Split u c)" "[c]"] show ?thesis by auto
qed

lemma tenantParse_username:
  assumes "params ''user'' = Some u" and "tenantParse params ''username'' = Some n"
  shows "params ''username'' = Some n \<or>
         (length n < length u \<and> set n \<subseteq> insert CHR ''.'' (set u))"
proof -
  let ?parts = "Split u CHR ''.''"
  have gen: "length (Join (take j ?parts) ''.'') < length u \<and>
             set (Join (take j ?parts) ''.'') \<subseteq> insert CHR ''.'' (set u)"
    if "j < length ?parts" "2 \<le> length ?parts" for j
    using Join_take_Split_shorter [OF that] Join_take_Split_set [of j u "CHR ''.''"] by simp
  from assms have "params ''username'' = Some n
      \<or> (3 \<le> length ?parts \<and> n = Join (take (length ?parts - 2) ?parts) ''.'')
      \<or> (2 \<le> length ?parts \<and> n = Join (take (length ?parts - 1) ?parts) ''.'')"
    unfolding tenantParse_def Let_def by (auto split: if_splits)
  then show ?thesis
  proof (elim disjE conjE)
    assume "params ''username'' = Some n"
    then show ?thesis by simp
  next
    assume "3 \<le> length ?parts" and n: "n = Join (take (length ?parts - 2) ?parts) ''.''"
    then have "length ?parts - 2 < length ?parts" "2 \<le> length ?parts" by simp_all
    from gen [OF this] show ?thesis by (simp only: n) simp
  next
    assume "2 \<le> length ?parts" and n: "n = Join (take (length ?parts - 1) ?parts) ''.''"
    then have "length ?parts - 1 < length ?parts" "2 \<le> length ?parts" by simp_all
    from gen [OF this] show ?thesis by (simp only: n) simp
  qed
qed


section \<open>The parameters that are encoded again\<close>

lemma buildParams_tenantParse: "buildParams (tenantParse params) n = buildParams params n"
  by (rule ext) (simp add: buildParams_def tenantParse_other)

lemma finite_dom_buildParams: "finite (dom params) \<Longrightarrow> finite (dom (buildParams params n))"
proof -
  assume "finite (dom params)"
  moreover have "dom (buildParams params n) \<subseteq> insert ''user'' (dom params)"
    by (auto simp: buildParams_def split: if_splits)
  ultimately show ?thesis
    by (meson finite_insert finite_subset)
qed

lemma nul_free_buildParams:
  "nul_free params \<Longrightarrow> NUL \<notin> set n \<Longrightarrow> nul_free (buildParams params n)"
  by (auto simp: nul_free_def buildParams_def split: if_splits)

lemma params_size_buildParams:
  assumes fin: "finite (dom params)" and u: "params ''user'' = Some u"
    and n: "params ''username'' = Some n \<or> length n < length u"
  shows "params_size (buildParams params n) < params_size params"
proof -
  let ?B = "buildParams params n"
  let ?I = "{''deployment_id'', ''pooled'', ''username''}"
  let ?R = "dom params - ?I - {''user''}"
  have domB: "dom ?B = insert ''user'' ?R"
    using u by (auto simp: buildParams_def split: if_splits)
  have finR: "finite ?R" using fin by simp
  have "sum (entry_size ?B) (insert ''user'' ?R) = entry_size ?B ''user'' + sum (entry_size ?B) ?R"
    using finR by (subst sum.insert) auto
  moreover have "sum (entry_size ?B) ?R = sum (entry_size params) ?R"
    by (rule sum.cong) (auto simp: entry_size_def buildParams_def)
  moreover have "entry_size ?B ''user'' = 4 + 1 + length n + 1"
    by (simp add: entry_size_def buildParams_def)
  ultimately have B: "params_size ?B = 4 + 1 + length n + 1 + sum (entry_size params) ?R"
    by (simp add: params_size_def domB)
  have "''user'' \<in> dom params" using u by auto
  then have P: "params_size params
                  = entry_size params ''user'' + sum (entry_size params) (dom params - {''user''})"
    unfolding params_size_def by (rule sum.remove [OF fin])
  have eu: "entry_size params ''user'' = 4 + 1 + length u + 1"
    using u by (simp add: entry_size_def)
  from n show ?thesis
  proof
    assume un: "params ''username'' = Some n"
    then have "''username'' \<in> dom params - {''user''}" by auto
    moreover have "finite (dom params - {''user''})" using fin by simp
    ultimately have "sum (entry_size params) (dom params - {''user''})
        = entry_size params ''username''
          + sum (entry_size params) (dom params - {''user''} - {''username''})"
      by (rule sum.remove [rotated])
    moreover have "sum (entry_size params) ?R
        \<le> sum (entry_size params) (dom params - {''user''} - {''username''})"
      using fin by (intro sum_mono2) auto
    moreover have "entry_size params ''username'' = 8 + 1 + length n + 1"
      using un by (simp add: entry_size_def)
    ultimately show ?thesis using B P by linarith
  next
    assume "length n < length u"
    moreover have "sum (entry_size params) ?R \<le> sum (entry_size params) (dom params - {''user''})"
      using fin by (intro sum_mono2) auto
    ultimately show ?thesis using B P eu by linarith
  qed
qed

section \<open>Encoding and decoding again\<close>

lemma iteration_order_finite: "iteration_order m ks \<Longrightarrow> finite (dom m)"
  by (metis iteration_order_def List.finite_set)

lemma readParams_Nil: "readParams [] acc = Inr acc"
  by (subst readParams.simps) (simp add: ReadString_def)

lemma readParams_wire_Nil:
  "\<forall>(k, v) \<in> set es. k \<noteq> [] \<and> NUL \<notin> set k \<and> NUL \<notin> set v \<Longrightarrow>
   readParams (wire es) acc = Inr (store es acc)"
proof (induction es arbitrary: acc)
  case Nil
  then show ?case by (simp add: readParams_Nil)
next
  case (Cons e es)
  obtain k v where e: "e = (k, v)" by (cases e)
  with Cons.prems have kv: "k \<noteq> []" "NUL \<notin> set k" "NUL \<notin> set v" by auto
  have "readParams (wire (e # es)) acc = readParams (wire es) (acc(k \<mapsto> v))"
    using readParams_wire_step [OF kv] by (simp add: e)
  also have "\<dots> = Inr (store es (acc(k \<mapsto> v)))"
    using Cons.prems by (intro Cons.IH) simp
  finally show ?case by (simp only: e store.simps)
qed

lemma rebuild_decodes:
  assumes o1: "iteration_order B ks1" and o2: "iteration_order B ks2" and nf: "nul_free B"
    and v: "v \<noteq> 80877103" and size: "9 + params_size B < 2 ^ 31"
  shows "\<exists>frame. rebuildStartupMessage v B ks1 ks2 = Some frame
           \<and> length frame = 9 + params_size B
           \<and> Uint32 (take 4 frame) = Some (word_of_nat (length frame))
           \<and> take 4 (drop 4 frame) = be32 v
           \<and> (\<forall>rest out ok tls. decodeFrame (Conn (frame @ rest) out ok tls)
                  = Inr (StartupMessage B, take 4 frame, drop 4 frame, Conn rest out ok tls))"
proof -
  let ?es = "range_of B ks2"
  define payload where "payload = be32 v @ wire ?es @ [NUL]"
  define frame where "frame = be32 (word_of_nat (length payload + 4)) @ payload"
  have n: "length (wire ?es) = params_size B"
    using o2 by (simp add: length_wire_iteration_order params_size_def)
  have lp: "length payload + 4 = 9 + params_size B"
    by (simp add: payload_def length_be32 n)
  have "4 + 4 + length (wire ?es) + 1 = length payload + 4"
    by (simp add: payload_def length_be32)
  then have r: "rebuildStartupMessage v B ks1 ks2 = Some frame"
    using rebuildStartupMessage_bytes [OF o1 o2, of v] by (simp add: frame_def payload_def)
  have lf: "length frame = 9 + params_size B"
    using lp by (simp add: frame_def length_be32)
  have t4: "take 4 frame = be32 (word_of_nat (length payload + 4))"
    and d4: "drop 4 frame = payload"
    by (simp_all add: frame_def length_be32)
  have hd: "Uint32 (take 4 frame) = Some (word_of_nat (length frame))"
    unfolding t4 lf lp using Uint32_be32 [of "word_of_nat (9 + params_size B)" "[]"] by simp
  have ver: "take 4 (drop 4 frame) = be32 v"
    by (simp add: d4 payload_def length_be32)
  have "Uint32 (take 4 payload) = Some v"
    using Uint32_be32 [of v "[]"] by (simp add: payload_def length_be32)
  then have nssl: "\<not> isSSLRequest payload"
    using v by (simp add: isSSLRequest_version)
  have rp: "readParams (drop 4 payload) Map.empty = Inr B"
    using readParams_range_of [OF o2 nf, of "[]"] by (simp add: payload_def length_be32)
  have "decodeFrame (Conn (frame @ rest) out ok tls)
          = Inr (StartupMessage B, take 4 frame, drop 4 frame, Conn rest out ok tls)"
    for rest out ok tls
    unfolding t4 d4
    using decodeFrame_bytes [of payload B rest out ok tls] size lp nssl rp
    by (simp add: frame_def)
  with r lf hd ver show ?thesis by blast
qed

lemma decodeFrame_params:
  assumes "decodeFrame conn = Inr (StartupMessage params, header, payload, conn2)"
  shows "finite (dom params) \<and> nul_free params \<and> params_size params + 8 \<le> length (header @ payload)
         \<and> length (header @ payload) < 2 ^ 31"
proof -
  from decodeFrame_Startup [OF assms] have
    h: "length header = 4" "4 \<le> length payload" "length (header @ payload) < 2 ^ 31"
    and rp: "readParams (drop 4 payload) Map.empty = Inr params" by simp_all
  have "finite (dom (Map.empty :: params))" "nul_free Map.empty"
    by (simp_all add: nul_free_def)
  from readParams_props [OF rp this]
  have p: "finite (dom params)" "nul_free params"
    "params_size params \<le> params_size Map.empty + length (drop 4 payload)" by simp_all
  have "params_size (Map.empty :: params) = 0" by (simp add: params_size_def)
  with p(3) h(2) have "params_size params + 8 \<le> length (header @ payload)"
    by (simp add: h(1))
  with p h(3) show ?thesis by blast
qed

lemma readParams_wire_tail:
  assumes "\<forall>(k, v) \<in> set es. k \<noteq> [] \<and> NUL \<notin> set k \<and> NUL \<notin> set v"
    and "tail = [] \<or> (\<exists>t. tail = NUL # t)"
  shows "readParams (wire es @ tail) acc = Inr (store es acc)"
  using assms readParams_wire_Nil [of es acc] readParams_wire [of es _ acc] by auto

lemma decodeFrame_wire:
  assumes es: "\<forall>(k, v) \<in> set es. k \<noteq> [] \<and> NUL \<notin> set k \<and> NUL \<notin> set v"
    and tail: "tail = [] \<or> (\<exists>t. tail = NUL # t)"
    and v: "v \<noteq> 80877103"
    and size: "8 + length (wire es) + length tail < 2 ^ 31"
  shows "decodeFrame (Conn (be32 (word_of_nat (8 + length (wire es) + length tail))
                              @ be32 v @ wire es @ tail @ rest) out ok tls)
           = Inr (StartupMessage (store es Map.empty),
                  be32 (word_of_nat (8 + length (wire es) + length tail)),
                  be32 v @ wire es @ tail, Conn rest out ok tls)"
proof -
  define payload where "payload = be32 v @ wire es @ tail"
  have lp: "length payload + 4 = 8 + length (wire es) + length tail"
    by (simp add: payload_def length_be32)
  have "Uint32 (take 4 payload) = Some v"
    using Uint32_be32 [of v "[]"] by (simp add: payload_def length_be32)
  then have nssl: "\<not> isSSLRequest payload"
    using v by (simp add: isSSLRequest_version)
  have rp: "readParams (drop 4 payload) Map.empty = Inr (store es Map.empty)"
    using readParams_wire_tail [OF es tail] by (simp add: payload_def length_be32)
  have "decodeFrame (Conn (be32 (word_of_nat (length payload + 4)) @ payload @ rest) out ok tls)
          = Inr (StartupMessage (store es Map.empty), be32 (word_of_nat (length payload + 4)),
                 payload, Conn rest out ok tls)"
    using size nssl rp lp by (intro decodeFrame_bytes) simp_all
  then show ?thesis
    unfolding lp by (simp add: payload_def)
qed

lemma decodeFrame_invalid:
  "sint h < 4 \<Longrightarrow> decodeFrame (Conn (be32 h @ rest) out ok tls) = Inl (InvalidLength (sint h))"
proof -
  assume a: "sint h < 4"
  have 1: "ReadFull (Conn (be32 h @ rest) out ok tls) 4 = Some (be32 h, Conn rest out ok tls)"
    by (simp add: length_be32)
  have 2: "Uint32 (be32 h) = Some h"
    using Uint32_be32 [of h "[]"] by simp
  show ?thesis
    unfolding decodeFrame_def
    apply (simp only: 1 2 option.case prod.case Let_def)
    using a apply simp
    done
qed

text \<open>
  The encoder always writes the closing zero byte. When that brings the frame to \<open>2^31\<close>
  bytes, the length it stores is negative as an \<^verbatim>\<open>int32\<close> and the decoder refuses the frame.
\<close>

lemma rebuild_refused:
  assumes o1: "iteration_order B ks1" and o2: "iteration_order B ks2"
    and size: "9 + params_size B = 2 ^ 31"
  shows "\<exists>frame. rebuildStartupMessage v B ks1 ks2 = Some frame
           \<and> length frame = 9 + params_size B
           \<and> take 4 (drop 4 frame) = be32 v
           \<and> (\<forall>rest out ok tls. decodeFrame (Conn (frame @ rest) out ok tls)
                  = Inl (InvalidLength (- 2147483648)))"
proof -
  let ?es = "range_of B ks2"
  define payload where "payload = be32 v @ wire ?es @ [NUL]"
  define frame where "frame = be32 2147483648 @ payload"
  have n: "length (wire ?es) = params_size B"
    using o2 by (simp add: length_wire_iteration_order params_size_def)
  with size have "4 + 4 + length (wire ?es) + 1 = (2147483648 :: nat)" by simp
  then have "word_of_nat (4 + 4 + length (wire ?es) + 1) = (2147483648 :: 32 word)"
    by (simp only: of_nat_numeral)
  then have r: "rebuildStartupMessage v B ks1 ks2 = Some frame"
    using rebuildStartupMessage_bytes [OF o1 o2, of v] by (simp add: frame_def payload_def)
  have lf: "length frame = 9 + params_size B"
    by (simp add: frame_def payload_def length_be32 n)
  have ver: "take 4 (drop 4 frame) = be32 v"
    by (simp add: frame_def payload_def length_be32)
  have s: "sint (2147483648 :: 32 word) = - 2147483648" by simp
  have "decodeFrame (Conn (frame @ rest) out ok tls) = Inl (InvalidLength (- 2147483648))"
    for rest out ok tls
    using decodeFrame_invalid [of 2147483648 "payload @ rest" out ok tls]
    by (simp add: frame_def s)
  with r lf ver show ?thesis by blast
qed

section \<open>The handshake on a startup message\<close>

lemma storeReplay_Inr:
  "storeReplay header payload T conn ks1 ks2 = Inr (metadata, conn') \<Longrightarrow>
   conn' = conn \<and> (\<forall>k. k \<noteq> ''_raw_startup_message'' \<longrightarrow> metadata k = T k)"
  by (auto simp: storeReplay_def split: option.splits if_splits)

lemma storeReplay_no_user:
  "T ''user'' = None \<Longrightarrow> storeReplay header payload T conn ks1 ks2 = Inr (T, conn)"
  by (simp add: storeReplay_def)

lemma storeReplay_verbatim:
  assumes "length header = 4" and "T ''user'' = Some u"
    and "T ''username'' = None \<or> T ''username'' = Some u"
  shows "storeReplay header payload T conn ks1 ks2
           = Inr (T(''_raw_startup_message'' \<mapsto> header @ payload), conn)"
  using assms by (auto simp: storeReplay_def fullMsg_bytes)

lemma Handshake_decoded:
  assumes "upgrades conn0 conn"
    and "decodeFrame conn = Inr (StartupMessage params, header, payload, conn2)"
  shows "Handshake conn0 ks1 ks2 = storeReplay header payload (tenantParse params) conn2 ks1 ks2"
  using assms by (simp add: Handshake_upgrades Handshake_startup)

lemma unat_word_of_nat_small: "n < 2 ^ 31 \<Longrightarrow> unat (word_of_nat n :: 32 word) = n"
proof -
  assume "n < 2 ^ 31"
  moreover have "(2 :: nat) ^ 31 < 2 ^ 32" by simp
  ultimately have "n < 2 ^ 32" by (rule less_trans)
  then show ?thesis by (simp add: unat_of_nat)
qed

lemma storeReplay_rewrite:
  assumes "T ''user'' = Some u" and "T ''username'' = Some n" and "n \<noteq> u"
    and "Uint32 (take 4 payload) = Some v"
    and "rebuildStartupMessage v (buildParams T n) ks1 ks2 = Some frame"
  shows "storeReplay header payload T conn ks1 ks2
           = Inr (T(''_raw_startup_message'' \<mapsto> frame), conn)"
  using assms by (simp add: storeReplay_def)

section \<open>The length header and the errors of the decoder\<close>

definition ssl_conn :: conn where
  "ssl_conn = Conn [NUL, NUL, NUL, CHR 0x08, CHR 0x04, CHR 0xD2, CHR 0x16, CHR 0x2F] [] True
                (Some (Conn bob_frame [] True None))"

lemma sint_uint_small: "uint (h :: 32 word) < 2 ^ 31 \<Longrightarrow> sint h = uint h"
proof -
  assume a: "uint h < 2 ^ 31"
  have "- (2 ^ 31) \<le> uint h"
    by (rule order_trans [of _ 0]) simp_all
  then have "signed_take_bit (LENGTH(32) - Suc 0) (uint h) = uint h"
    using a by (intro signed_take_bit_int_eq_self) simp_all
  then show ?thesis by (simp only: sint_uint)
qed

lemma sint_uint_big:
  assumes "2 ^ 31 \<le> uint (h :: 32 word)"
  shows "sint h = uint h - 2 ^ 32"
proof -
  define k where "k = uint h - 2 ^ 32"
  have "uint h < 2 ^ 32" using uint_bounded [of h] by simp
  then have up: "k < 2 ^ 31" by (simp add: k_def)
  have lo: "- (2 ^ 31) \<le> k" using assms by (simp add: k_def)
  have "(word_of_int k :: 32 word) = word_of_int (uint h) - word_of_int (2 ^ 32)"
    by (simp add: k_def)
  also have "(word_of_int (2 ^ 32) :: 32 word) = 0"
    by simp
  finally have hk: "word_of_int k = h" by simp
  have "signed_take_bit (LENGTH(32) - 1) k = k"
    using lo up by (intro signed_take_bit_int_eq_self) simp_all
  then have "sint (word_of_int k :: 32 word) = k"
    by (simp only: sint_sbintrunc')
  then have "sint h = k" unfolding hk .
  then show ?thesis by (simp only: k_def)
qed

lemma sint_less_4_iff: "sint (h :: 32 word) < 4 \<longleftrightarrow> unat h < 4 \<or> 2 ^ 31 \<le> unat h"
proof -
  have u: "int (unat h) = uint h" by simp
  have "sint h < 4 \<longleftrightarrow> uint h < 4 \<or> 2 ^ 31 \<le> uint h"
  proof (cases "uint h < 2 ^ 31")
    case True
    then show ?thesis by (simp add: sint_uint_small)
  next
    case False
    then have b: "2 ^ 31 \<le> uint h" by simp
    have "uint h < 2 ^ 32" using uint_bounded [of h] by simp
    then have "sint h < 4" by (simp add: sint_uint_big [OF b])
    with b show ?thesis by simp
  qed
  also have "uint h < 4 \<longleftrightarrow> unat h < 4"
    unfolding u [symmetric] by (metis of_nat_less_iff of_nat_numeral)
  also have "2 ^ 31 \<le> uint h \<longleftrightarrow> 2 ^ 31 \<le> unat h"
    unfolding u [symmetric] by (metis of_nat_le_iff of_nat_numeral of_nat_power)
  finally show ?thesis .
qed

lemma sint_ge_4:
  assumes "4 \<le> sint (h :: 32 word)"
  shows "nat (sint h - 4) = unat h - 4" and "4 \<le> unat h" and "unat h < 2 ^ 31"
proof -
  from assms have "\<not> sint h < 4" by simp
  then have n: "\<not> (unat h < 4 \<or> 2 ^ 31 \<le> unat h)"
    using sint_less_4_iff [of h] by blast
  then show "4 \<le> unat h" and s: "unat h < 2 ^ 31" by simp_all
  have "int (unat h) < int (2 ^ 31)" using s by (simp only: of_nat_less_iff)
  then have "uint h < 2 ^ 31" by simp
  then have "sint h = uint h" by (rule sint_uint_small)
  then show "nat (sint h - 4) = unat h - 4" by (simp add: nat_diff_distrib')
qed

lemma readParams_Inl: "readParams buf acc = Inl e \<Longrightarrow> e = Malformed"
proof (induction buf arbitrary: acc rule: length_induct)
  case (1 buf)
  obtain key eof buf1 where r1: "ReadString buf NUL = (key, eof, buf1)"
    by (cases "ReadString buf NUL") auto
  obtain val eof2 buf2 where r2: "ReadString buf1 NUL = (val, eof2, buf2)"
    by (cases "ReadString buf1 NUL") auto
  from "1.prems" r1 r2 have "e = Malformed \<or>
      (\<not> eof \<and> \<not> eof2 \<and> readParams buf2 (acc(butlast key \<mapsto> butlast val)) = Inl e)"
    by (auto simp: readParams.simps [of buf acc] split: if_splits)
  then show ?case
  proof
    assume "e = Malformed"
    then show ?thesis .
  next
    assume a: "\<not> eof \<and> \<not> eof2 \<and> readParams buf2 (acc(butlast key \<mapsto> butlast val)) = Inl e"
    with r1 r2 have "length buf1 < length buf" "length buf2 < length buf1"
      by (auto dest: ReadString_shorter)
    then have "length buf2 < length buf" by simp
    with "1.IH" a show ?thesis by blast
  qed
qed

lemma decodeFrame_after_header:
  assumes "ReadFull conn 4 = Some (header, conn1)" and "Uint32 header = Some h"
  shows "decodeFrame conn =
           (if sint h < 4 then Inl (InvalidLength (sint h))
            else (case ReadFull conn1 (nat (sint h - 4)) of
                    None \<Rightarrow> Inl ReadBodyFailed
                  | Some (payload, conn2) \<Rightarrow>
                      if isSSLRequest payload then Inr (SSLRequest, header, payload, conn2)
                      else if length payload < 4 then Inl PayloadTooShort
                      else (case readParams (drop 4 payload) Map.empty of
                              Inl e \<Rightarrow> Inl e
                            | Inr params \<Rightarrow>
                                Inr (StartupMessage params, header, payload, conn2))))"
  unfolding decodeFrame_def by (simp only: assms option.case prod.case Let_def)

lemma Handshake_SSLRequest:
  "decodeFrame conn = Inr (SSLRequest, header, payload, conn2) \<Longrightarrow>
   Handshake conn ks1 ks2 =
     (case Write conn2 ''S'' of
        None \<Rightarrow> Inl WriteSSLFailed
      | Some conn3 \<Rightarrow>
          (case tlsServerHandshake conn3 of
             None \<Rightarrow> Inl TLSHandshakeFailed
           | Some tlsConn \<Rightarrow> Handshake tlsConn ks1 ks2))"
  by (simp add: Handshake.simps [of conn])

lemma Handshake_Inl: "decodeFrame conn = Inl e \<Longrightarrow> Handshake conn ks1 ks2 = Inl e"
  by (simp add: Handshake.simps [of conn])

lemma Write_written: "Write conn bs = Some conn3 \<Longrightarrow> written conn3 = written conn @ bs"
  by (cases conn) (auto split: if_splits)

lemma ReadFull_written: "ReadFull conn n = Some (bs, conn1) \<Longrightarrow> written conn1 = written conn"
  by (cases conn) (auto split: if_splits)

section \<open>The example frames\<close>

lemma example_decode:
  assumes es: "\<forall>(k, v) \<in> set es. k \<noteq> [] \<and> NUL \<notin> set k \<and> NUL \<notin> set v"
    and hdr: "Uint32 hdr = Some (word_of_nat (8 + length (wire es) + 1))" "length hdr = 4"
    and ver: "Uint32 ver = Some v" "length ver = 4" "v \<noteq> 80877103"
    and size: "8 + length (wire es) + 1 < 2 ^ 31"
  shows "decodeFrame (Conn (hdr @ ver @ wire es @ [NUL] @ rest) out ok tls)
           = Inr (StartupMessage (store es Map.empty), hdr, ver @ wire es @ [NUL],
                  Conn rest out ok tls)"
proof -
  from hdr have h: "hdr = be32 (word_of_nat (8 + length (wire es) + 1))"
    by (simp add: Uint32_Some_iff)
  from ver have v: "ver = be32 v"
    by (simp add: Uint32_Some_iff)
  show ?thesis
    unfolding h v
    using decodeFrame_wire [of es "[NUL]" v rest out ok tls] es ver(3) size
    by simp
qed

lemma bob_decode:
  "decodeFrame (Conn bob_frame [] True None)
     = Inr (StartupMessage [''user'' \<mapsto> ''bob''], take 4 bob_frame, drop 4 bob_frame,
            Conn [] [] True None)"
  using example_decode [of "[(''user'', ''bob'')]" "[NUL, NUL, NUL, CHR 0x12]"
      "[NUL, CHR 0x03, NUL, NUL]" 196608 "[]" "[]" True None]
  by (simp add: bob_frame_def)

lemma bob_handshake:
  "Handshake (Conn bob_frame [] True None) ks1 ks2
     = Inr ([''user'' \<mapsto> ''bob'', ''pooled'' \<mapsto> ''false'',
             ''_raw_startup_message'' \<mapsto> bob_frame], Conn [] [] True None)"
  using storeReplay_verbatim [of "take 4 bob_frame"
      "[''user'' \<mapsto> ''bob'', ''pooled'' \<mapsto> ''false'']" "''bob''"
      "drop 4 bob_frame" "Conn [] [] True None" ks1 ks2]
  by (simp add: Handshake_startup [OF bob_decode] tenantParse_def) (simp add: bob_frame_def)

lemma pool_decode:
  "decodeFrame (Conn pool_frame [] True None)
     = Inr (StartupMessage [''user'' \<mapsto> ''x.pool''], take 4 pool_frame, drop 4 pool_frame,
            Conn [] [] True None)"
  using example_decode [of "[(''user'', ''x.pool'')]" "[NUL, NUL, NUL, CHR 0x15]"
      "[NUL, CHR 0x03, NUL, NUL]" 196608 "[]" "[]" True None]
  by (simp add: pool_frame_def)

lemma pool_handshake:
  "Handshake (Conn pool_frame [] True None) ks1 ks2
     = Inr ([''user'' \<mapsto> ''x.pool'', ''pooled'' \<mapsto> ''true'',
             ''_raw_startup_message'' \<mapsto> pool_frame], Conn [] [] True None)"
  using storeReplay_verbatim [of "take 4 pool_frame"
      "[''user'' \<mapsto> ''x.pool'', ''pooled'' \<mapsto> ''true'']" "''x.pool''"
      "drop 4 pool_frame" "Conn [] [] True None" ks1 ks2]
  by (simp add: Handshake_startup [OF pool_decode] tenantParse_def) (simp add: pool_frame_def)

lemma app_decode:
  "decodeFrame (Conn app_frame [] True None)
     = Inr (StartupMessage [''database'' \<mapsto> ''app''], take 4 app_frame, drop 4 app_frame,
            Conn [] [] True None)"
  using example_decode [of "[(''database'', ''app'')]" "[NUL, NUL, NUL, CHR 0x16]"
      "[NUL, CHR 0x03, NUL, NUL]" 196608 "[]" "[]" True None]
  by (simp add: app_frame_def)

lemma smuggle_decode:
  "decodeFrame (Conn smuggle_frame [] True None)
     = Inr (StartupMessage [''_raw_startup_message'' \<mapsto> ''x''], take 4 smuggle_frame,
            drop 4 smuggle_frame, Conn [] [] True None)"
  using example_decode [of "[(''_raw_startup_message'', ''x'')]" "[NUL, NUL, NUL, CHR 0x20]"
      "[NUL, CHR 0x03, NUL, NUL]" 196608 "[]" "[]" True None]
  by (simp add: smuggle_frame_def)

lemma alice_decode:
  "decodeFrame (Conn alice_frame [] True None)
     = Inr (StartupMessage [''user'' \<mapsto> ''alice.dep42'', ''database'' \<mapsto> ''app''],
            take 4 alice_frame, drop 4 alice_frame, Conn [] [] True None)"
  using example_decode [of "[(''user'', ''alice.dep42''), (''database'', ''app'')]"
      "[NUL, NUL, NUL, CHR 0x27]" "[NUL, CHR 0x03, NUL, NUL]" 196608 "[]" "[]" True None]
  by (simp add: alice_frame_def)

lemma alice_buildParams:
  "buildParams (tenantParse [''user'' \<mapsto> ''alice.dep42'', ''database'' \<mapsto> ''app'']) ''alice''
     = [''user'' \<mapsto> ''alice'', ''database'' \<mapsto> ''app'']"
  unfolding buildParams_tenantParse by (rule ext) (simp add: buildParams_def)

lemma ab_smuggle_decode:
  "decodeFrame (Conn ab_smuggle_frame [] True None)
     = Inr (StartupMessage [''user'' \<mapsto> ''a.b'', ''_raw_startup_message'' \<mapsto> ''x''],
            take 4 ab_smuggle_frame, drop 4 ab_smuggle_frame, Conn [] [] True None)"
  using example_decode [of "[(''user'', ''a.b''), (''_raw_startup_message'', ''x'')]"
      "[NUL, NUL, NUL, CHR 0x29]" "[NUL, CHR 0x03, NUL, NUL]" 196608 "[]" "[]" True None]
  by (simp add: ab_smuggle_frame_def)

lemma ab_smuggle_tenantParse:
  "tenantParse [''user'' \<mapsto> ''a.b'', ''_raw_startup_message'' \<mapsto> ''x'']
     = [''user'' \<mapsto> ''a.b'', ''_raw_startup_message'' \<mapsto> ''x'', ''pooled'' \<mapsto> ''false'',
        ''deployment_id'' \<mapsto> ''b'', ''username'' \<mapsto> ''a'']"
  by (simp add: tenantParse_def)

lemma ab_smuggle_buildParams:
  "buildParams (tenantParse [''user'' \<mapsto> ''a.b'', ''_raw_startup_message'' \<mapsto> ''x'']) ''a''
     = [''user'' \<mapsto> ''a'', ''_raw_startup_message'' \<mapsto> ''x'']"
  unfolding buildParams_tenantParse by (rule ext) (simp add: buildParams_def)

lemma ab_smuggle_rebuild:
  "rebuildStartupMessage 196608 [''user'' \<mapsto> ''a'', ''_raw_startup_message'' \<mapsto> ''x'']
     [''user'', ''_raw_startup_message''] [''user'', ''_raw_startup_message'']
     = Some ab_smuggle_replay"
proof -
  have o: "iteration_order [''user'' \<mapsto> ''a'', ''_raw_startup_message'' \<mapsto> ''x'']
             [''user'', ''_raw_startup_message'']"
    by (auto simp: iteration_order_def)
  have "Uint32 [NUL, NUL, NUL, CHR 0x27] = Some 39" by simp
  then have h: "be32 39 = [NUL, NUL, NUL, CHR 0x27]" by (rule be32_Uint32_4)
  have "Uint32 [NUL, CHR 0x03, NUL, NUL] = Some 196608" by simp
  then have v: "be32 196608 = [NUL, CHR 0x03, NUL, NUL]" by (rule be32_Uint32_4)
  show ?thesis
    using rebuildStartupMessage_bytes [OF o o, of 196608]
    by (simp add: range_of_def h v ab_smuggle_replay_def)
qed

lemma ab_smuggle_handshake:
  "Handshake (Conn ab_smuggle_frame [] True None)
     [''user'', ''_raw_startup_message''] [''user'', ''_raw_startup_message'']
     = Inr ([''user'' \<mapsto> ''a.b'', ''_raw_startup_message'' \<mapsto> ab_smuggle_replay,
             ''pooled'' \<mapsto> ''false'', ''deployment_id'' \<mapsto> ''b'', ''username'' \<mapsto> ''a''],
            Conn [] [] True None)"
proof -
  have v: "Uint32 (take 4 (drop 4 ab_smuggle_frame)) = Some 196608"
    by (simp add: ab_smuggle_frame_def)
  have "storeReplay (take 4 ab_smuggle_frame) (drop 4 ab_smuggle_frame)
          (tenantParse [''user'' \<mapsto> ''a.b'', ''_raw_startup_message'' \<mapsto> ''x''])
          (Conn [] [] True None) [''user'', ''_raw_startup_message''] [''user'', ''_raw_startup_message'']
        = Inr ((tenantParse [''user'' \<mapsto> ''a.b'', ''_raw_startup_message'' \<mapsto> ''x''])
                 (''_raw_startup_message'' \<mapsto> ab_smuggle_replay), Conn [] [] True None)"
    by (rule storeReplay_rewrite [where u = "''a.b''" and n = "''a''" and v = 196608])
       (simp_all add: v ab_smuggle_buildParams ab_smuggle_rebuild, simp_all add: ab_smuggle_tenantParse)
  then show ?thesis
    by (simp add: Handshake_startup [OF ab_smuggle_decode] ab_smuggle_tenantParse fun_upd_twist)
qed

lemma ab_smuggle_replay_decode:
  "decodeFrame (Conn ab_smuggle_replay [] True None)
     = Inr (StartupMessage [''user'' \<mapsto> ''a'', ''_raw_startup_message'' \<mapsto> ''x''],
            take 4 ab_smuggle_replay, drop 4 ab_smuggle_replay, Conn [] [] True None)"
  using example_decode [of "[(''user'', ''a''), (''_raw_startup_message'', ''x'')]"
      "[NUL, NUL, NUL, CHR 0x27]" "[NUL, CHR 0x03, NUL, NUL]" 196608 "[]" "[]" True None]
  by (simp add: ab_smuggle_replay_def)

lemma big_frame_tail: "replicate 65532 NUL = NUL # replicate 65531 NUL"
proof -
  have "(65532 :: nat) = Suc 65531" by simp
  then show ?thesis by (simp only: replicate_Suc)
qed

lemma big_decode:
  "decodeFrame (Conn big_frame [] True None)
     = Inr (StartupMessage Map.empty, take 4 big_frame, drop 4 big_frame, Conn [] [] True None)"
proof -
  define zeros where "zeros = replicate 65532 NUL"
  have lz: "length zeros = 65532" by (simp add: zeros_def)
  have tz: "zeros = [] \<or> (\<exists>t. zeros = NUL # t)"
    unfolding zeros_def using big_frame_tail by blast
  have "Uint32 [NUL, CHR 0x01, NUL, CHR 0x04] = Some 65540" by simp
  then have h: "be32 65540 = [NUL, CHR 0x01, NUL, CHR 0x04]" by (rule be32_Uint32_4)
  have "Uint32 [NUL, CHR 0x03, NUL, NUL] = Some 196608" by simp
  then have v: "be32 196608 = [NUL, CHR 0x03, NUL, NUL]" by (rule be32_Uint32_4)
  have "decodeFrame (Conn ([NUL, CHR 0x01, NUL, CHR 0x04, NUL, CHR 0x03, NUL, NUL] @ zeros) [] True None)
     = Inr (StartupMessage Map.empty, [NUL, CHR 0x01, NUL, CHR 0x04],
            [NUL, CHR 0x03, NUL, NUL] @ zeros, Conn [] [] True None)"
    using decodeFrame_wire [of "[]" zeros 196608 "[]" "[]" True None] tz
    by (simp add: lz h v)
  then show ?thesis
    by (simp add: big_frame_def zeros_def)
qed

section \<open>The claims of the specification\<close>

text \<open>
  Claim C1, as amended. Take a startup frame that decodes to the version \<open>v\<close> and the
  parameter map \<open>params\<close>. Every key of \<open>params\<close> is non-empty, and no key or value holds
  a zero byte. Encoding \<open>params\<close> and \<open>v\<close> again with \<^verbatim>\<open>rebuildStartupMessage\<close>,
  whatever the order in which the two loops visit the map, gives a frame of 9 bytes plus,
  for every parameter, its key and its value with their two zero bytes, and with the same
  version. When that frame is shorter than \<open>2^31\<close> bytes it decodes to exactly the same
  version and the same map, every key and value byte for byte. Otherwise it has exactly
  \<open>2^31\<close> bytes and the decoder refuses it for its length.
\<close>

theorem codec_round_trip:
  assumes dec: "decodeFrame conn = Inr (StartupMessage params, header, payload, conn2)"
    and ver: "Uint32 (take 4 payload) = Some v"
    and o1: "iteration_order params ks1" and o2: "iteration_order params ks2"
  shows "nul_free params \<and>
         (\<exists>frame. rebuildStartupMessage v params ks1 ks2 = Some frame
            \<and> length frame = 9 + params_size params
            \<and> Uint32 (take 4 (drop 4 frame)) = Some v
            \<and> (9 + params_size params < 2 ^ 31 \<longrightarrow>
                 (\<forall>rest out ok tls. decodeFrame (Conn (frame @ rest) out ok tls)
                    = Inr (StartupMessage params, take 4 frame, drop 4 frame,
                           Conn rest out ok tls)))
            \<and> (2 ^ 31 \<le> 9 + params_size params \<longrightarrow>
                 (\<forall>rest out ok tls. decodeFrame (Conn (frame @ rest) out ok tls)
                    = Inl (InvalidLength (- 2147483648)))))"
proof -
  from decodeFrame_params [OF dec] have nf: "nul_free params"
    and sz: "params_size params + 8 \<le> length (header @ payload)"
    and lt: "length (header @ payload) < 2 ^ 31" by simp_all
  from decodeFrame_Startup [OF dec] have "\<not> isSSLRequest payload" by simp
  with ver have v: "v \<noteq> 80877103" by (simp add: isSSLRequest_version)
  have u: "Uint32 (be32 v) = Some v" using Uint32_be32 [of v "[]"] by simp
  let ?body = "\<lambda>frame. rebuildStartupMessage v params ks1 ks2 = Some frame
            \<and> length frame = 9 + params_size params
            \<and> Uint32 (take 4 (drop 4 frame)) = Some v
            \<and> (9 + params_size params < 2 ^ 31 \<longrightarrow>
                 (\<forall>rest out ok tls. decodeFrame (Conn (frame @ rest) out ok tls)
                    = Inr (StartupMessage params, take 4 frame, drop 4 frame,
                           Conn rest out ok tls)))
            \<and> (2 ^ 31 \<le> 9 + params_size params \<longrightarrow>
                 (\<forall>rest out ok tls. decodeFrame (Conn (frame @ rest) out ok tls)
                    = Inl (InvalidLength (- 2147483648))))"
  show ?thesis
  proof (cases "9 + params_size params < 2 ^ 31")
    case True
    from rebuild_decodes [OF o1 o2 nf v True] obtain frame where
      f: "rebuildStartupMessage v params ks1 ks2 = Some frame"
      "length frame = 9 + params_size params" "take 4 (drop 4 frame) = be32 v"
      "\<forall>rest out ok tls. decodeFrame (Conn (frame @ rest) out ok tls)
          = Inr (StartupMessage params, take 4 frame, drop 4 frame, Conn rest out ok tls)"
      by blast
    from True have nt: "\<not> 2 ^ 31 \<le> 9 + params_size params" by (simp only: not_le)
    have uv: "Uint32 (take 4 (drop 4 frame)) = Some v" by (simp only: f(3) u)
    have i1: "9 + params_size params < 2 ^ 31 \<longrightarrow>
                 (\<forall>rest out ok tls. decodeFrame (Conn (frame @ rest) out ok tls)
                    = Inr (StartupMessage params, take 4 frame, drop 4 frame,
                           Conn rest out ok tls))"
      using f(4) by (intro impI)
    have i2: "2 ^ 31 \<le> 9 + params_size params \<longrightarrow>
                 (\<forall>rest out ok tls. decodeFrame (Conn (frame @ rest) out ok tls)
                    = Inl (InvalidLength (- 2147483648)))"
    proof
      assume "2 ^ 31 \<le> 9 + params_size params"
      with nt show "\<forall>rest out ok tls. decodeFrame (Conn (frame @ rest) out ok tls)
                    = Inl (InvalidLength (- 2147483648))" by (rule notE)
    qed
    from f(1,2) uv i1 i2 have "?body frame" by (intro conjI)
    then have "\<exists>frame. ?body frame" ..
    with nf show ?thesis ..
  next
    case False
    with sz lt have e: "9 + params_size params = 2 ^ 31" by linarith
    from rebuild_refused [OF o1 o2 e, of v] obtain frame where
      f: "rebuildStartupMessage v params ks1 ks2 = Some frame"
      "length frame = 9 + params_size params" "take 4 (drop 4 frame) = be32 v"
      "\<forall>rest out ok tls. decodeFrame (Conn (frame @ rest) out ok tls)
          = Inl (InvalidLength (- 2147483648))"
      by blast
    from e have ge: "2 ^ 31 \<le> 9 + params_size params" by (simp only: order_refl)
    have uv: "Uint32 (take 4 (drop 4 frame)) = Some v" by (simp only: f(3) u)
    have i1: "9 + params_size params < 2 ^ 31 \<longrightarrow>
                 (\<forall>rest out ok tls. decodeFrame (Conn (frame @ rest) out ok tls)
                    = Inr (StartupMessage params, take 4 frame, drop 4 frame,
                           Conn rest out ok tls))"
    proof
      assume "9 + params_size params < 2 ^ 31"
      with False show "\<forall>rest out ok tls. decodeFrame (Conn (frame @ rest) out ok tls)
                    = Inr (StartupMessage params, take 4 frame, drop 4 frame,
                           Conn rest out ok tls)" by (rule notE)
    qed
    have i2: "2 ^ 31 \<le> 9 + params_size params \<longrightarrow>
                 (\<forall>rest out ok tls. decodeFrame (Conn (frame @ rest) out ok tls)
                    = Inl (InvalidLength (- 2147483648)))"
      using f(4) by (intro impI)
    from f(1,2) uv i1 i2 have "?body frame" by (intro conjI)
    then have "\<exists>frame. ?body frame" ..
    with nf show ?thesis ..
  qed
qed

text \<open>
  The round trip at the frame of version 3.0 with the one parameter \<open>user = bob\<close>.
\<close>

theorem codec_round_trip_witness:
  "decodeFrame (Conn bob_frame [] True None)
     = Inr (StartupMessage [''user'' \<mapsto> ''bob''], take 4 bob_frame, drop 4 bob_frame,
            Conn [] [] True None) \<and>
   Uint32 (take 4 (drop 4 bob_frame)) = Some 196608 \<and>
   iteration_order [''user'' \<mapsto> ''bob''] [''user''] \<and>
   9 + params_size [''user'' \<mapsto> ''bob''] < 2 ^ 31 \<and>
   nul_free [''user'' \<mapsto> ''bob''] \<and>
   (\<exists>frame. rebuildStartupMessage 196608 [''user'' \<mapsto> ''bob''] [''user''] [''user''] = Some frame
      \<and> length frame = 9 + params_size [''user'' \<mapsto> ''bob'']
      \<and> Uint32 (take 4 (drop 4 frame)) = Some 196608
      \<and> (\<forall>rest out ok tls. decodeFrame (Conn (frame @ rest) out ok tls)
            = Inr (StartupMessage [''user'' \<mapsto> ''bob''], take 4 frame, drop 4 frame,
                   Conn rest out ok tls)))"
proof -
  let ?P = "[''user'' \<mapsto> ''bob'']"
  have ver: "Uint32 (take 4 (drop 4 bob_frame)) = Some 196608"
    by (simp add: bob_frame_def)
  have o: "iteration_order ?P [''user'']"
    by (simp add: iteration_order_def)
  have sz: "9 + params_size ?P < 2 ^ 31"
    by (simp add: params_size_def entry_size_def)
  note t = codec_round_trip [OF bob_decode ver o o]
  from t have nf: "nul_free ?P" by (rule conjunct1)
  from t [THEN conjunct2] obtain frame where
    f: "rebuildStartupMessage 196608 ?P [''user''] [''user''] = Some frame
            \<and> length frame = 9 + params_size ?P
            \<and> Uint32 (take 4 (drop 4 frame)) = Some 196608
            \<and> (9 + params_size ?P < 2 ^ 31 \<longrightarrow>
                 (\<forall>rest out ok tls. decodeFrame (Conn (frame @ rest) out ok tls)
                    = Inr (StartupMessage ?P, take 4 frame, drop 4 frame,
                           Conn rest out ok tls)))
            \<and> (2 ^ 31 \<le> 9 + params_size ?P \<longrightarrow>
                 (\<forall>rest out ok tls. decodeFrame (Conn (frame @ rest) out ok tls)
                    = Inl (InvalidLength (- 2147483648))))" ..
  note g = f [THEN conjunct2, THEN conjunct2, THEN conjunct2, THEN conjunct1, THEN mp, OF sz]
  have b: "rebuildStartupMessage 196608 ?P [''user''] [''user''] = Some frame
      \<and> length frame = 9 + params_size ?P
      \<and> Uint32 (take 4 (drop 4 frame)) = Some 196608
      \<and> (\<forall>rest out ok tls. decodeFrame (Conn (frame @ rest) out ok tls)
            = Inr (StartupMessage ?P, take 4 frame, drop 4 frame, Conn rest out ok tls))"
    using f [THEN conjunct1] f [THEN conjunct2, THEN conjunct1]
      f [THEN conjunct2, THEN conjunct2, THEN conjunct1] g
    by (intro conjI)
  have "\<exists>frame. rebuildStartupMessage 196608 ?P [''user''] [''user''] = Some frame
      \<and> length frame = 9 + params_size ?P
      \<and> Uint32 (take 4 (drop 4 frame)) = Some 196608
      \<and> (\<forall>rest out ok tls. decodeFrame (Conn (frame @ rest) out ok tls)
            = Inr (StartupMessage ?P, take 4 frame, drop 4 frame, Conn rest out ok tls))"
    by (intro exI) (rule b)
  with bob_decode ver o sz nf show ?thesis by (intro conjI)
qed

text \<open>
  Claim C1 as stated, for any startup frame, fails at the largest frame the decoder accepts:
  a frame of \<open>2^31 - 1\<close> bytes that ends with its last value and has no closing zero byte
  decodes to one parameter, the encoder writes it in \<open>2^31\<close> bytes, and that length, read
  as an \<^verbatim>\<open>int32\<close>, is negative: the frame encoded again is refused as invalid.
\<close>

theorem codec_round_trip_counterexample:
  "decodeFrame (Conn ([CHR 0x7F, CHR 0xFF, CHR 0xFF, CHR 0xFF, NUL, CHR 0x03, NUL, NUL] @ ''k'' @ [NUL]
                        @ replicate 2147483636 CHR ''a'' @ [NUL]) [] True None)
     = Inr (StartupMessage [''k'' \<mapsto> replicate 2147483636 CHR ''a''],
            [CHR 0x7F, CHR 0xFF, CHR 0xFF, CHR 0xFF],
            [NUL, CHR 0x03, NUL, NUL] @ ''k'' @ [NUL] @ replicate 2147483636 CHR ''a'' @ [NUL],
            Conn [] [] True None) \<and>
   Uint32 (take 4 ([NUL, CHR 0x03, NUL, NUL] @ ''k'' @ [NUL] @ replicate 2147483636 CHR ''a'' @ [NUL]))
     = Some 196608 \<and>
   iteration_order [''k'' \<mapsto> replicate 2147483636 CHR ''a''] [''k''] \<and>
   rebuildStartupMessage 196608 [''k'' \<mapsto> replicate 2147483636 CHR ''a''] [''k''] [''k'']
     = Some ([CHR 0x80, NUL, NUL, NUL, NUL, CHR 0x03, NUL, NUL] @ ''k'' @ [NUL]
               @ replicate 2147483636 CHR ''a'' @ [NUL, NUL]) \<and>
   decodeFrame (Conn ([CHR 0x80, NUL, NUL, NUL, NUL, CHR 0x03, NUL, NUL] @ ''k'' @ [NUL]
                        @ replicate 2147483636 CHR ''a'' @ [NUL, NUL]) [] True None)
     = Inl (InvalidLength (- 2147483648))"
proof -
  define big where "big = replicate 2147483636 CHR ''a''"
  have lb: "length big = 2147483636" by (simp add: big_def)
  have nb: "NUL \<notin> set big" by (simp add: big_def)
  have "Uint32 [CHR 0x7F, CHR 0xFF, CHR 0xFF, CHR 0xFF] = Some 2147483647" by simp
  then have h1: "be32 2147483647 = [CHR 0x7F, CHR 0xFF, CHR 0xFF, CHR 0xFF]" by (rule be32_Uint32_4)
  have "Uint32 [CHR 0x80, NUL, NUL, NUL] = Some 2147483648" by simp
  then have h2: "be32 2147483648 = [CHR 0x80, NUL, NUL, NUL]" by (rule be32_Uint32_4)
  have "Uint32 [NUL, CHR 0x03, NUL, NUL] = Some 196608" by simp
  then have v: "be32 196608 = [NUL, CHR 0x03, NUL, NUL]" by (rule be32_Uint32_4)
  have 1: "decodeFrame (Conn ([CHR 0x7F, CHR 0xFF, CHR 0xFF, CHR 0xFF, NUL, CHR 0x03, NUL, NUL] @ ''k'' @ [NUL]
                        @ big @ [NUL]) [] True None)
     = Inr (StartupMessage [''k'' \<mapsto> big], [CHR 0x7F, CHR 0xFF, CHR 0xFF, CHR 0xFF],
            [NUL, CHR 0x03, NUL, NUL] @ ''k'' @ [NUL] @ big @ [NUL], Conn [] [] True None)"
    using decodeFrame_wire [of "[(''k'', big)]" "[]" 196608 "[]" "[]" True None] nb
    by (simp add: h1 v lb)
  have 2: "Uint32 (take 4 ([NUL, CHR 0x03, NUL, NUL] @ ''k'' @ [NUL] @ big @ [NUL])) = Some 196608"
    by simp
  have 3: "iteration_order [''k'' \<mapsto> big] [''k'']"
    by (simp add: iteration_order_def)
  have r: "range_of [''k'' \<mapsto> big] [''k''] = [(''k'', big)]"
    by (simp add: range_of_def)
  have 4: "rebuildStartupMessage 196608 [''k'' \<mapsto> big] [''k''] [''k'']
     = Some ([CHR 0x80, NUL, NUL, NUL, NUL, CHR 0x03, NUL, NUL] @ ''k'' @ [NUL] @ big @ [NUL, NUL])"
    using rebuildStartupMessage_bytes [OF 3 3, of 196608]
    by (simp add: r lb h2 v)
  have "sint (2147483648 :: 32 word) = - 2147483648" by simp
  then have 5: "decodeFrame (Conn ([CHR 0x80, NUL, NUL, NUL, NUL, CHR 0x03, NUL, NUL] @ ''k'' @ [NUL]
                        @ big @ [NUL, NUL]) [] True None) = Inl (InvalidLength (- 2147483648))"
    using decodeFrame_invalid [of 2147483648
        "[NUL, CHR 0x03, NUL, NUL] @ ''k'' @ [NUL] @ big @ [NUL, NUL]" "[]" True None]
    by (simp add: h2)
  from 1 2 3 4 5 show ?thesis
    unfolding big_def by (intro conjI)
qed

text \<open>
  Claim C2. On the five literal user strings of the specification the tenant address
  parser gives: \<open>alice.dep42\<close> to username \<open>alice\<close>, deployment id \<open>dep42\<close>, not pooled;
  \<open>alice.dep42.pool\<close> to the same with pooled true; \<open>a.b.c.dep42\<close> to username \<open>a.b.c\<close>,
  deployment id \<open>dep42\<close>, not pooled; \<open>a.b.c.dep42.pool\<close> to the same with pooled true;
  and \<open>solo\<close> to pooled false with neither a deployment id nor a username.
\<close>

theorem tenantParse_examples:
  "tenantParse [''user'' \<mapsto> ''alice.dep42''] =
     [''user'' \<mapsto> ''alice.dep42'', ''pooled'' \<mapsto> ''false'',
      ''deployment_id'' \<mapsto> ''dep42'', ''username'' \<mapsto> ''alice''] \<and>
   tenantParse [''user'' \<mapsto> ''alice.dep42.pool''] =
     [''user'' \<mapsto> ''alice.dep42.pool'', ''pooled'' \<mapsto> ''true'',
      ''deployment_id'' \<mapsto> ''dep42'', ''username'' \<mapsto> ''alice''] \<and>
   tenantParse [''user'' \<mapsto> ''a.b.c.dep42''] =
     [''user'' \<mapsto> ''a.b.c.dep42'', ''pooled'' \<mapsto> ''false'',
      ''deployment_id'' \<mapsto> ''dep42'', ''username'' \<mapsto> ''a.b.c''] \<and>
   tenantParse [''user'' \<mapsto> ''a.b.c.dep42.pool''] =
     [''user'' \<mapsto> ''a.b.c.dep42.pool'', ''pooled'' \<mapsto> ''true'',
      ''deployment_id'' \<mapsto> ''dep42'', ''username'' \<mapsto> ''a.b.c''] \<and>
   tenantParse [''user'' \<mapsto> ''solo''] = [''user'' \<mapsto> ''solo'', ''pooled'' \<mapsto> ''false'']"
  by (simp add: tenantParse_def)

text \<open>
  Claim C3, as amended. Take a handshake that, after zero or more TLS upgrades, reads a
  startup message that has a \<open>user\<close> parameter, and that parameter is not rewritten: the
  parser derived no \<open>username\<close>, or the \<open>username\<close> equals the raw user. The handshake succeeds, and the bytes
  stored under \<^verbatim>\<open>_raw_startup_message\<close> are exactly the bytes read from the client for
  that message, the 4-byte header followed by the payload.
\<close>

theorem replay_verbatim:
  assumes "upgrades conn0 conn"
    and "decodeFrame conn = Inr (StartupMessage params, header, payload, conn2)"
    and "params ''user'' = Some u"
    and "tenantParse params ''username'' = None \<or> tenantParse params ''username'' = Some u"
  shows "Handshake conn0 ks1 ks2
           = Inr ((tenantParse params)(''_raw_startup_message'' \<mapsto> header @ payload), conn2)
         \<and> unread conn = header @ payload @ unread conn2"
proof -
  from decodeFrame_Startup [OF assms(2)]
  have h: "length header = 4" and u: "unread conn = header @ payload @ unread conn2"
    by simp_all
  have "tenantParse params ''user'' = Some u"
    using assms(3) by (simp add: tenantParse_user)
  from storeReplay_verbatim [OF h this assms(4)] u show ?thesis
    by (simp add: Handshake_decoded [OF assms(1,2)])
qed

text \<open>The verbatim replay at the frame with \<open>user = bob\<close>.\<close>

theorem replay_verbatim_witness:
  "upgrades (Conn bob_frame [] True None) (Conn bob_frame [] True None) \<and>
   decodeFrame (Conn bob_frame [] True None)
     = Inr (StartupMessage [''user'' \<mapsto> ''bob''], take 4 bob_frame, drop 4 bob_frame,
            Conn [] [] True None) \<and>
   [''user'' \<mapsto> ''bob''] ''user'' = Some ''bob'' \<and>
   tenantParse [''user'' \<mapsto> ''bob''] ''username'' = None \<and>
   Handshake (Conn bob_frame [] True None) [] []
     = Inr ((tenantParse [''user'' \<mapsto> ''bob''])
              (''_raw_startup_message'' \<mapsto> take 4 bob_frame @ drop 4 bob_frame),
            Conn [] [] True None) \<and>
   unread (Conn bob_frame [] True None)
     = take 4 bob_frame @ drop 4 bob_frame @ unread (Conn [] [] True None)"
proof -
  have u: "[''user'' \<mapsto> ''bob''] ''user'' = Some ''bob''" by simp
  have n: "tenantParse [''user'' \<mapsto> ''bob''] ''username'' = None"
    by (simp add: tenantParse_def)
  then have n': "tenantParse [''user'' \<mapsto> ''bob''] ''username'' = None
      \<or> tenantParse [''user'' \<mapsto> ''bob''] ''username'' = Some ''bob''" ..
  from replay_verbatim [OF upgrades.here bob_decode u n', of "[]" "[]"] upgrades.here bob_decode u n
  show ?thesis by blast
qed

text \<open>
  Claim C3 as stated, for every startup message whose user is not rewritten, fails at a
  message without a \<open>user\<close> parameter. No \<open>username\<close> is derived, the handshake succeeds, and
  lines 167--220 store nothing: for \<open>database = app\<close> the metadata has no replay bytes at all,
  and for a client parameter named \<^verbatim>\<open>_raw_startup_message\<close> the metadata holds the client's
  value \<open>x\<close> under that key, not the bytes that were read.
\<close>

theorem replay_verbatim_counterexample:
  "decodeFrame (Conn app_frame [] True None)
     = Inr (StartupMessage [''database'' \<mapsto> ''app''], take 4 app_frame, drop 4 app_frame,
            Conn [] [] True None) \<and>
   tenantParse [''database'' \<mapsto> ''app''] ''username'' = None \<and>
   Handshake (Conn app_frame [] True None) [] []
     = Inr ([''database'' \<mapsto> ''app''], Conn [] [] True None) \<and>
   [''database'' \<mapsto> ''app''] ''_raw_startup_message'' = None \<and>
   decodeFrame (Conn smuggle_frame [] True None)
     = Inr (StartupMessage [''_raw_startup_message'' \<mapsto> ''x''], take 4 smuggle_frame,
            drop 4 smuggle_frame, Conn [] [] True None) \<and>
   tenantParse [''_raw_startup_message'' \<mapsto> ''x''] ''username'' = None \<and>
   Handshake (Conn smuggle_frame [] True None) [] []
     = Inr ([''_raw_startup_message'' \<mapsto> ''x''], Conn [] [] True None) \<and>
   [''_raw_startup_message'' \<mapsto> ''x''] ''_raw_startup_message'' = Some ''x'' \<and>
   ''x'' \<noteq> take 4 smuggle_frame @ drop 4 smuggle_frame"
proof -
  have a: "tenantParse [''database'' \<mapsto> ''app''] ''username'' = None"
    by (simp add: tenantParse_def)
  have b: "Handshake (Conn app_frame [] True None) [] []
     = Inr ([''database'' \<mapsto> ''app''], Conn [] [] True None)"
    by (simp add: Handshake_startup [OF app_decode] tenantParse_no_user storeReplay_no_user)
  have c: "tenantParse [''_raw_startup_message'' \<mapsto> ''x''] ''username'' = None"
    by (simp add: tenantParse_def)
  have d: "Handshake (Conn smuggle_frame [] True None) [] []
     = Inr ([''_raw_startup_message'' \<mapsto> ''x''], Conn [] [] True None)"
    by (simp add: Handshake_startup [OF smuggle_decode] tenantParse_no_user storeReplay_no_user)
  have e: "''x'' \<noteq> take 4 smuggle_frame @ drop 4 smuggle_frame"
    by (simp add: smuggle_frame_def)
  from app_decode a b smuggle_decode c d e show ?thesis by simp
qed

text \<open>
  Claim C4, as amended. Take a handshake that, after zero or more TLS upgrades, reads a
  startup message whose \<open>user\<close> is rewritten to the \<open>username\<close> \<open>n\<close>. The handshake
  succeeds and stores a frame whose first four bytes are the big-endian encoding of its
  own length. The frame carries the protocol version of the client, and it decodes to
  the parameter map of the client without the keys \<open>deployment_id\<close>, \<open>pooled\<close> and
  \<open>username\<close> and with \<open>user\<close> set to \<open>n\<close>: every other key is as the client sent it. A
  parameter named \<^verbatim>\<open>_raw_startup_message\<close> is such an other key, so it is in the frame
  exactly when the client sent it.
\<close>

theorem replay_rewritten:
  assumes up: "upgrades conn0 conn"
    and dec: "decodeFrame conn = Inr (StartupMessage params, header, payload, conn2)"
    and user: "params ''user'' = Some u"
    and name: "tenantParse params ''username'' = Some n"
    and diff: "n \<noteq> u"
    and o1: "iteration_order (buildParams (tenantParse params) n) ks1"
    and o2: "iteration_order (buildParams (tenantParse params) n) ks2"
  shows "\<exists>frame w.
           Handshake conn0 ks1 ks2
             = Inr ((tenantParse params)(''_raw_startup_message'' \<mapsto> frame), conn2)
           \<and> Uint32 (take 4 frame) = Some w \<and> unat w = length frame
           \<and> take 4 (drop 4 frame) = take 4 payload
           \<and> (\<forall>rest out ok tls. decodeFrame (Conn (frame @ rest) out ok tls)
                  = Inr (StartupMessage
                           ((params |` (- {''deployment_id'', ''pooled'', ''username''}))
                              (''user'' \<mapsto> n)),
                         take 4 frame, drop 4 frame, Conn rest out ok tls))"
proof -
  define B where "B = buildParams params n"
  have BT: "buildParams (tenantParse params) n = B"
    by (simp add: B_def buildParams_tenantParse)
  from decodeFrame_params [OF dec] have fin: "finite (dom params)" and nf: "nul_free params"
    and sz: "params_size params + 8 \<le> length (header @ payload)"
    and small: "length (header @ payload) < 2 ^ 31" by simp_all
  from decodeFrame_Startup [OF dec] have lp: "4 \<le> length payload"
    and nssl: "\<not> isSSLRequest payload" by simp_all
  from lp have "length (take 4 payload) = 4" by simp
  then obtain v where v: "Uint32 (take 4 payload) = Some v"
    using Uint32_4 by blast
  with nssl have vn: "v \<noteq> 80877103" by (simp add: isSSLRequest_version)
  from v have tv: "take 4 payload = be32 v"
    by (simp add: Uint32_Some_iff)
  from tenantParse_username [of params u n] user name
  have n: "params ''username'' = Some n
             \<or> (length n < length u \<and> set n \<subseteq> insert CHR ''.'' (set u))" by simp
  from nf user have "NUL \<notin> set u" by (auto simp: nul_free_def)
  with n nf have "NUL \<notin> set n" by (auto simp: nul_free_def)
  with nf have nfB: "nul_free B" unfolding B_def by (rule nul_free_buildParams)
  from n have "params ''username'' = Some n \<or> length n < length u" by blast
  from params_size_buildParams [OF fin user this] have "params_size B < params_size params"
    by (simp add: B_def)
  with sz small have size: "9 + params_size B < 2 ^ 31" by linarith
  from rebuild_decodes [OF o1 [unfolded BT] o2 [unfolded BT] nfB vn size]
  obtain frame where f: "rebuildStartupMessage v B ks1 ks2 = Some frame"
    "length frame = 9 + params_size B"
    "Uint32 (take 4 frame) = Some (word_of_nat (length frame))"
    "take 4 (drop 4 frame) = be32 v"
    "\<forall>rest out ok tls. decodeFrame (Conn (frame @ rest) out ok tls)
       = Inr (StartupMessage B, take 4 frame, drop 4 frame, Conn rest out ok tls)"
    by blast
  have "tenantParse params ''user'' = Some u"
    using user by (simp add: tenantParse_user)
  from storeReplay_rewrite [OF this name diff v f(1) [folded BT]]
  have hs: "Handshake conn0 ks1 ks2
              = Inr ((tenantParse params)(''_raw_startup_message'' \<mapsto> frame), conn2)"
    by (simp add: Handshake_decoded [OF up dec])
  have "length frame < 2 ^ 31" using size f(2) by simp
  then have w: "unat (word_of_nat (length frame) :: 32 word) = length frame"
    by (rule unat_word_of_nat_small)
  have "B = (params |` (- {''deployment_id'', ''pooled'', ''username''}))(''user'' \<mapsto> n)"
    by (rule ext) (simp add: B_def buildParams_def restrict_map_def)
  with hs f(3) w f(4) [folded tv] f(5) show ?thesis by blast
qed

text \<open>
  The rewritten replay at the frame with \<open>user = alice.dep42\<close> and \<open>database = app\<close>,
  where the two loops of the encoder visit the map in different orders.
\<close>

theorem replay_rewritten_witness:
  "upgrades (Conn alice_frame [] True None) (Conn alice_frame [] True None) \<and>
   decodeFrame (Conn alice_frame [] True None)
     = Inr (StartupMessage [''user'' \<mapsto> ''alice.dep42'', ''database'' \<mapsto> ''app''],
            take 4 alice_frame, drop 4 alice_frame, Conn [] [] True None) \<and>
   [''user'' \<mapsto> ''alice.dep42'', ''database'' \<mapsto> ''app''] ''user'' = Some ''alice.dep42'' \<and>
   tenantParse [''user'' \<mapsto> ''alice.dep42'', ''database'' \<mapsto> ''app''] ''username''
     = Some ''alice'' \<and>
   ''alice'' \<noteq> ''alice.dep42'' \<and>
   iteration_order
     (buildParams (tenantParse [''user'' \<mapsto> ''alice.dep42'', ''database'' \<mapsto> ''app'']) ''alice'')
     [''database'', ''user''] \<and>
   iteration_order
     (buildParams (tenantParse [''user'' \<mapsto> ''alice.dep42'', ''database'' \<mapsto> ''app'']) ''alice'')
     [''user'', ''database''] \<and>
   (\<exists>frame w.
      Handshake (Conn alice_frame [] True None) [''database'', ''user''] [''user'', ''database'']
        = Inr ((tenantParse [''user'' \<mapsto> ''alice.dep42'', ''database'' \<mapsto> ''app''])
                 (''_raw_startup_message'' \<mapsto> frame), Conn [] [] True None)
      \<and> Uint32 (take 4 frame) = Some w \<and> unat w = length frame
      \<and> take 4 (drop 4 frame) = take 4 (drop 4 alice_frame)
      \<and> (\<forall>rest out ok tls. decodeFrame (Conn (frame @ rest) out ok tls)
             = Inr (StartupMessage
                      (([''user'' \<mapsto> ''alice.dep42'', ''database'' \<mapsto> ''app'']
                          |` (- {''deployment_id'', ''pooled'', ''username''}))
                         (''user'' \<mapsto> ''alice'')),
                    take 4 frame, drop 4 frame, Conn rest out ok tls)))"
proof -
  let ?P = "[''user'' \<mapsto> ''alice.dep42'', ''database'' \<mapsto> ''app'']"
  have u: "?P ''user'' = Some ''alice.dep42''" by simp
  have n: "tenantParse ?P ''username'' = Some ''alice''"
    by (simp add: tenantParse_def)
  have d: "''alice'' \<noteq> ''alice.dep42''" by simp
  have o1: "iteration_order (buildParams (tenantParse ?P) ''alice'') [''database'', ''user'']"
    by (auto simp: alice_buildParams iteration_order_def)
  have o2: "iteration_order (buildParams (tenantParse ?P) ''alice'') [''user'', ''database'']"
    by (auto simp: alice_buildParams iteration_order_def)
  from replay_rewritten [OF upgrades.here alice_decode u n d o1 o2]
    upgrades.here alice_decode u n d o1 o2
  show ?thesis by (intro conjI)
qed

text \<open>
  Claim C4 as stated fails for the reserved replay key: when the client sends
  \<open>user = a.b\<close> and a parameter named \<^verbatim>\<open>_raw_startup_message\<close>, the frame stored for the
  backend has \<open>user = a\<close> and still carries that parameter.
\<close>

theorem replay_rewritten_counterexample:
  "decodeFrame (Conn ab_smuggle_frame [] True None)
     = Inr (StartupMessage [''user'' \<mapsto> ''a.b'', ''_raw_startup_message'' \<mapsto> ''x''],
            take 4 ab_smuggle_frame, drop 4 ab_smuggle_frame, Conn [] [] True None) \<and>
   iteration_order
     (buildParams (tenantParse [''user'' \<mapsto> ''a.b'', ''_raw_startup_message'' \<mapsto> ''x'']) ''a'')
     [''user'', ''_raw_startup_message''] \<and>
   Handshake (Conn ab_smuggle_frame [] True None)
     [''user'', ''_raw_startup_message''] [''user'', ''_raw_startup_message'']
     = Inr ([''user'' \<mapsto> ''a.b'', ''_raw_startup_message'' \<mapsto> ab_smuggle_replay,
             ''pooled'' \<mapsto> ''false'', ''deployment_id'' \<mapsto> ''b'', ''username'' \<mapsto> ''a''],
            Conn [] [] True None) \<and>
   decodeFrame (Conn ab_smuggle_replay [] True None)
     = Inr (StartupMessage [''user'' \<mapsto> ''a'', ''_raw_startup_message'' \<mapsto> ''x''],
            take 4 ab_smuggle_replay, drop 4 ab_smuggle_replay, Conn [] [] True None) \<and>
   [''user'' \<mapsto> ''a'', ''_raw_startup_message'' \<mapsto> ''x''] ''_raw_startup_message'' = Some ''x''"
proof -
  have o: "iteration_order
     (buildParams (tenantParse [''user'' \<mapsto> ''a.b'', ''_raw_startup_message'' \<mapsto> ''x'']) ''a'')
     [''user'', ''_raw_startup_message'']"
    by (auto simp: ab_smuggle_buildParams iteration_order_def)
  have "[''user'' \<mapsto> ''a'', ''_raw_startup_message'' \<mapsto> ''x''] ''_raw_startup_message'' = Some ''x''"
    by simp
  with ab_smuggle_decode o ab_smuggle_handshake ab_smuggle_replay_decode
  show ?thesis by (intro conjI)
qed

text \<open>
  Claim C5. Once the header and the payload of a frame are read, the frame is taken for
  an \<^verbatim>\<open>SSLRequest\<close> if and only if the payload has at least four bytes and starts with
  \<open>04 D2 16 2F\<close>, the big-endian encoding of 80877103. In that case the handshake writes
  the single byte \<open>S\<close> to the connection, upgrades it to TLS and starts again on the TLS
  connection; a failed write or a failed TLS handshake ends it with an error.
\<close>

theorem ssl_request_classification:
  assumes r1: "ReadFull conn 4 = Some (header, conn1)" and h: "Uint32 header = Some h"
    and len: "4 \<le> sint h"
    and r2: "ReadFull conn1 (nat (sint h - 4)) = Some (payload, conn2)"
  shows "((\<exists>hd pl c. decodeFrame conn = Inr (SSLRequest, hd, pl, c))
            \<longleftrightarrow> 4 \<le> length payload \<and> take 4 payload = [CHR 0x04, CHR 0xD2, CHR 0x16, CHR 0x2F])
       \<and> (4 \<le> length payload \<and> take 4 payload = [CHR 0x04, CHR 0xD2, CHR 0x16, CHR 0x2F] \<longrightarrow>
            decodeFrame conn = Inr (SSLRequest, header, payload, conn2)
            \<and> Handshake conn ks1 ks2 =
                  (case Write conn2 ''S'' of
                     None \<Rightarrow> Inl WriteSSLFailed
                   | Some conn3 \<Rightarrow>
                       (case tlsServerHandshake conn3 of
                          None \<Rightarrow> Inl TLSHandshakeFailed
                        | Some tlsConn \<Rightarrow> Handshake tlsConn ks1 ks2)))
       \<and> (\<forall>conn3. Write conn2 ''S'' = Some conn3 \<longrightarrow> written conn3 = written conn @ ''S'')"
proof -
  let ?sentinel = "4 \<le> length payload \<and> take 4 payload = [CHR 0x04, CHR 0xD2, CHR 0x16, CHR 0x2F]"
  have d: "decodeFrame conn =
      (if isSSLRequest payload then Inr (SSLRequest, header, payload, conn2)
       else if length payload < 4 then Inl PayloadTooShort
       else (case readParams (drop 4 payload) Map.empty of
               Inl e \<Rightarrow> Inl e
             | Inr params \<Rightarrow> Inr (StartupMessage params, header, payload, conn2)))"
    using len by (simp add: decodeFrame_after_header [OF r1 h] r2)
  have 1: "(\<exists>hd pl c. decodeFrame conn = Inr (SSLRequest, hd, pl, c)) \<longleftrightarrow> isSSLRequest payload"
    unfolding d by (auto split: sum.splits)
  have 2: "decodeFrame conn = Inr (SSLRequest, header, payload, conn2)" if "isSSLRequest payload"
    using that by (simp add: d)
  have w: "written conn2 = written conn"
    using ReadFull_written [OF r1] ReadFull_written [OF r2] by simp
  have 3: "\<forall>conn3. Write conn2 ''S'' = Some conn3 \<longrightarrow> written conn3 = written conn @ ''S''"
    using Write_written [of conn2 "''S''"] w by auto
  from 1 2 3 Handshake_SSLRequest [of conn header payload conn2 ks1 ks2] show ?thesis
    unfolding isSSLRequest_iff by blast
qed

text \<open>
  The classification at the eight bytes of an \<^verbatim>\<open>SSLRequest\<close>, followed over TLS by the
  frame with \<open>user = bob\<close>.
\<close>

theorem ssl_request_classification_witness:
  "ReadFull ssl_conn 4
     = Some ([NUL, NUL, NUL, CHR 0x08],
             Conn [CHR 0x04, CHR 0xD2, CHR 0x16, CHR 0x2F] [] True (Some (Conn bob_frame [] True None))) \<and>
   Uint32 [NUL, NUL, NUL, CHR 0x08] = Some 8 \<and>
   4 \<le> sint (8 :: 32 word) \<and>
   ReadFull (Conn [CHR 0x04, CHR 0xD2, CHR 0x16, CHR 0x2F] [] True (Some (Conn bob_frame [] True None)))
       (nat (sint (8 :: 32 word) - 4))
     = Some ([CHR 0x04, CHR 0xD2, CHR 0x16, CHR 0x2F],
             Conn [] [] True (Some (Conn bob_frame [] True None))) \<and>
   decodeFrame ssl_conn
     = Inr (SSLRequest, [NUL, NUL, NUL, CHR 0x08], [CHR 0x04, CHR 0xD2, CHR 0x16, CHR 0x2F],
            Conn [] [] True (Some (Conn bob_frame [] True None))) \<and>
   Handshake ssl_conn [] [] = Handshake (Conn bob_frame [] True None) [] [] \<and>
   Write (Conn [] [] True (Some (Conn bob_frame [] True None))) ''S''
     = Some (Conn [] ''S'' True (Some (Conn bob_frame [] True None))) \<and>
   written (Conn [] ''S'' True (Some (Conn bob_frame [] True None))) = written ssl_conn @ ''S''"
proof -
  have r1: "ReadFull ssl_conn 4
     = Some ([NUL, NUL, NUL, CHR 0x08],
             Conn [CHR 0x04, CHR 0xD2, CHR 0x16, CHR 0x2F] [] True (Some (Conn bob_frame [] True None)))"
    by (simp add: ssl_conn_def)
  have h: "Uint32 [NUL, NUL, NUL, CHR 0x08] = Some 8" by simp
  have len: "4 \<le> sint (8 :: 32 word)" by simp
  have r2: "ReadFull (Conn [CHR 0x04, CHR 0xD2, CHR 0x16, CHR 0x2F] [] True (Some (Conn bob_frame [] True None)))
       (nat (sint (8 :: 32 word) - 4))
     = Some ([CHR 0x04, CHR 0xD2, CHR 0x16, CHR 0x2F],
             Conn [] [] True (Some (Conn bob_frame [] True None)))"
    by simp
  have w: "Write (Conn [] [] True (Some (Conn bob_frame [] True None))) ''S''
     = Some (Conn [] ''S'' True (Some (Conn bob_frame [] True None)))"
    by simp
  from ssl_request_classification [OF r1 h len r2, of "[]" "[]"] r1 h len r2 w
  show ?thesis
    by (simp add: tlsServerHandshake_def)
qed

text \<open>
  Claim C6, as amended. After the four bytes of the header are read as \<open>h\<close>, the decoder fails
  with the invalid-length error if and only if the header, read as a signed 32-bit number,
  is less than 4: that is, when the unsigned value \<open>L\<close> is less than 4 or at least \<open>2^31\<close>;
  the handshake then fails with that error. For every \<open>L\<close> from 4 to \<open>2^31 - 1\<close> the
  decoder goes on to read exactly \<open>L - 4\<close> payload bytes: it fails with the read error
  when they do not arrive, and every frame it returns has that payload.
\<close>

theorem invalid_length_signed:
  assumes r1: "ReadFull conn 4 = Some (header, conn1)" and h: "Uint32 header = Some h"
  shows "((\<exists>n. decodeFrame conn = Inl (InvalidLength n)) \<longleftrightarrow> unat h < 4 \<or> 2 ^ 31 \<le> unat h)
       \<and> (unat h < 4 \<or> 2 ^ 31 \<le> unat h \<longrightarrow>
            Handshake conn ks1 ks2 = Inl (InvalidLength (sint h)))
       \<and> (4 \<le> unat h \<and> unat h < 2 ^ 31 \<longrightarrow>
            (ReadFull conn1 (unat h - 4) = None \<longrightarrow> decodeFrame conn = Inl ReadBodyFailed)
          \<and> (\<forall>pl c. ReadFull conn1 (unat h - 4) = Some (pl, c) \<longrightarrow>
                 length pl = unat h - 4 \<and> decodeFrame conn \<noteq> Inl ReadBodyFailed)
          \<and> (\<forall>m hd pl c. decodeFrame conn = Inr (m, hd, pl, c) \<longrightarrow>
                 ReadFull conn1 (unat h - 4) = Some (pl, c)))"
proof -
  note d = decodeFrame_after_header [OF r1 h]
  have a: "(\<exists>n. decodeFrame conn = Inl (InvalidLength n)) \<longleftrightarrow> unat h < 4 \<or> 2 ^ 31 \<le> unat h"
  proof (cases "sint h < 4")
    case True
    then show ?thesis using sint_less_4_iff [of h] by (simp add: d)
  next
    case False
    have "decodeFrame conn \<noteq> Inl (InvalidLength n)" for n
      using False by (auto simp: d split: option.splits sum.splits dest: readParams_Inl)
    with False show ?thesis using sint_less_4_iff [of h] by blast
  qed
  have b: "(ReadFull conn1 (unat h - 4) = None \<longrightarrow> decodeFrame conn = Inl ReadBodyFailed)
         \<and> (\<forall>pl c. ReadFull conn1 (unat h - 4) = Some (pl, c) \<longrightarrow>
                length pl = unat h - 4 \<and> decodeFrame conn \<noteq> Inl ReadBodyFailed)
         \<and> (\<forall>m hd pl c. decodeFrame conn = Inr (m, hd, pl, c) \<longrightarrow>
                ReadFull conn1 (unat h - 4) = Some (pl, c))"
    if "4 \<le> unat h \<and> unat h < 2 ^ 31"
  proof -
    from that have "\<not> sint h < 4" by (simp add: sint_less_4_iff)
    then have s: "4 \<le> sint h" by simp
    note n = sint_ge_4(1) [OF s]
    have l: "length pl = unat h - 4" if "ReadFull conn1 (unat h - 4) = Some (pl, c)" for pl c
      using that by (simp add: ReadFull_Some)
    show ?thesis
      using s l
      by (auto simp: d n split: option.splits sum.splits if_splits dest: readParams_Inl)
  qed
  have c: "Handshake conn ks1 ks2 = Inl (InvalidLength (sint h))"
    if "unat h < 4 \<or> 2 ^ 31 \<le> unat h"
  proof -
    from that have "sint h < 4" by (simp only: sint_less_4_iff)
    then have "decodeFrame conn = Inl (InvalidLength (sint h))" by (simp add: d)
    then show ?thesis by (rule Handshake_Inl)
  qed
  show ?thesis
  proof (intro conjI)
    show "(\<exists>n. decodeFrame conn = Inl (InvalidLength n)) \<longleftrightarrow> unat h < 4 \<or> 2 ^ 31 \<le> unat h"
      by (rule a)
    show "unat h < 4 \<or> 2 ^ 31 \<le> unat h \<longrightarrow> Handshake conn ks1 ks2 = Inl (InvalidLength (sint h))"
      using c by (rule impI)
    show "4 \<le> unat h \<and> unat h < 2 ^ 31 \<longrightarrow>
                (ReadFull conn1 (unat h - 4) = None \<longrightarrow> decodeFrame conn = Inl ReadBodyFailed)
              \<and> (\<forall>pl c. ReadFull conn1 (unat h - 4) = Some (pl, c) \<longrightarrow>
                     length pl = unat h - 4 \<and> decodeFrame conn \<noteq> Inl ReadBodyFailed)
              \<and> (\<forall>m hd pl c. decodeFrame conn = Inr (m, hd, pl, c) \<longrightarrow>
                     ReadFull conn1 (unat h - 4) = Some (pl, c))"
      using b by (rule impI)
  qed
qed

text \<open>The length test at the frame with \<open>user = bob\<close>, whose header is 18.\<close>

theorem invalid_length_signed_witness:
  "ReadFull (Conn bob_frame [] True None) 4
     = Some ([NUL, NUL, NUL, CHR 0x12], Conn (drop 4 bob_frame) [] True None) \<and>
   Uint32 [NUL, NUL, NUL, CHR 0x12] = Some 18 \<and>
   4 \<le> unat (18 :: 32 word) \<and> unat (18 :: 32 word) < 2 ^ 31 \<and>
   ReadFull (Conn (drop 4 bob_frame) [] True None) (unat (18 :: 32 word) - 4)
     = Some (drop 4 bob_frame, Conn [] [] True None) \<and>
   length (drop 4 bob_frame) = unat (18 :: 32 word) - 4"
proof -
  have r1: "ReadFull (Conn bob_frame [] True None) 4
     = Some ([NUL, NUL, NUL, CHR 0x12], Conn (drop 4 bob_frame) [] True None)"
    by (simp add: bob_frame_def)
  have u: "Uint32 [NUL, NUL, NUL, CHR 0x12] = Some 18" by simp
  have range: "4 \<le> unat (18 :: 32 word) \<and> unat (18 :: 32 word) < 2 ^ 31" by simp
  note valid = invalid_length_signed [OF r1 u, of "[]" "[]", THEN conjunct2, THEN conjunct2,
      THEN mp, OF range]
  note ln = valid [THEN conjunct2, THEN conjunct1, rule_format]
  note rd = valid [THEN conjunct2, THEN conjunct2, rule_format]
  have r2: "ReadFull (Conn (drop 4 bob_frame) [] True None) (unat (18 :: 32 word) - 4)
              = Some (drop 4 bob_frame, Conn [] [] True None)"
    by (rule rd [OF bob_decode])
  have "length (drop 4 bob_frame) = unat (18 :: 32 word) - 4"
    by (rule ln [OF r2, THEN conjunct1])
  with r1 u range r2 show ?thesis by (intro conjI) simp_all
qed

text \<open>
  Claim C6 as stated, with the header read as an unsigned number, fails at the header
  \<open>80 00 00 00\<close>: its unsigned value \<open>2^31\<close> is not less than 4, and the handshake fails with
  the invalid-length error.
\<close>

theorem invalid_length_signed_counterexample:
  "ReadFull (Conn [CHR 0x80, NUL, NUL, NUL] [] True None) 4
     = Some ([CHR 0x80, NUL, NUL, NUL], Conn [] [] True None) \<and>
   Uint32 [CHR 0x80, NUL, NUL, NUL] = Some 2147483648 \<and>
   4 \<le> unat (2147483648 :: 32 word) \<and>
   decodeFrame (Conn [CHR 0x80, NUL, NUL, NUL] [] True None)
     = Inl (InvalidLength (- 2147483648)) \<and>
   Handshake (Conn [CHR 0x80, NUL, NUL, NUL] [] True None) [] []
     = Inl (InvalidLength (- 2147483648))"
proof -
  have u: "Uint32 [CHR 0x80, NUL, NUL, NUL] = Some 2147483648" by simp
  then have h: "be32 2147483648 = [CHR 0x80, NUL, NUL, NUL]" by (rule be32_Uint32_4)
  have "sint (2147483648 :: 32 word) = - 2147483648" by simp
  then have "decodeFrame (Conn [CHR 0x80, NUL, NUL, NUL] [] True None)
     = Inl (InvalidLength (- 2147483648))"
    using decodeFrame_invalid [of 2147483648 "[]" "[]" True None] by (simp add: h)
  with u show ?thesis by (simp add: Handshake_Inl)
qed

text \<open>
  Claim C7, as amended. The decoder has no ceiling on the declared length and no error
  for a frame that is too large: for every declared length \<open>L\<close> from 4 to \<open>2^31 - 1\<close> whose
  \<open>L - 4\<close> payload bytes arrive, it reads a payload of exactly \<open>L - 4\<close> bytes, and what it
  returns depends on the content of that payload only. It refuses the payload as too short
  exactly when it has less than four bytes. It returns an \<^verbatim>\<open>SSLRequest\<close> exactly when the
  payload starts with the bytes \<open>04 D2 16 2F\<close>. It refuses the payload as malformed exactly
  when, after a version other than those four bytes, the parameters are complete entries
  followed by a key, its zero byte, and a value that no zero byte ends. In every other case
  it returns a startup message.
\<close>

theorem no_length_ceiling:
  assumes r1: "ReadFull conn 4 = Some (header, conn1)" and h: "Uint32 header = Some h"
    and lo: "4 \<le> unat h" and hi: "unat h < 2 ^ 31"
    and avail: "unat h - 4 \<le> length (unread conn1)"
  shows "\<exists>payload conn2.
           ReadFull conn1 (unat h - 4) = Some (payload, conn2) \<and> length payload = unat h - 4
           \<and> (decodeFrame conn = Inl PayloadTooShort \<longleftrightarrow> length payload < 4)
           \<and> (decodeFrame conn = Inr (SSLRequest, header, payload, conn2) \<longleftrightarrow>
                4 \<le> length payload
                \<and> take 4 payload = [CHR 0x04, CHR 0xD2, CHR 0x16, CHR 0x2F])
           \<and> (decodeFrame conn = Inl Malformed \<longleftrightarrow>
                4 \<le> length payload
                \<and> take 4 payload \<noteq> [CHR 0x04, CHR 0xD2, CHR 0x16, CHR 0x2F]
                \<and> (\<exists>es k v. (\<forall>(k, v) \<in> set es. k \<noteq> [] \<and> NUL \<notin> set k \<and> NUL \<notin> set v)
                      \<and> k \<noteq> [] \<and> NUL \<notin> set k \<and> NUL \<notin> set v
                      \<and> drop 4 payload = wire es @ k @ NUL # v))
           \<and> (decodeFrame conn = Inl PayloadTooShort
                \<or> decodeFrame conn = Inr (SSLRequest, header, payload, conn2)
                \<or> decodeFrame conn = Inl Malformed
                \<or> (\<exists>params. decodeFrame conn = Inr (StartupMessage params, header, payload, conn2)))"
proof -
  from lo hi have "\<not> sint h < 4" by (simp add: sint_less_4_iff)
  then have s: "4 \<le> sint h" by simp
  note n = sint_ge_4(1) [OF s]
  obtain payload conn2 where r2: "ReadFull conn1 (unat h - 4) = Some (payload, conn2)"
    using avail by (cases "ReadFull conn1 (unat h - 4)") (auto simp: ReadFull_None)
  then have l: "length payload = unat h - 4" by (simp add: ReadFull_Some)
  let ?ssl = "4 \<le> length payload \<and> take 4 payload = [CHR 0x04, CHR 0xD2, CHR 0x16, CHR 0x2F]"
  let ?bad = "\<exists>es k v. (\<forall>(k, v) \<in> set es. k \<noteq> [] \<and> NUL \<notin> set k \<and> NUL \<notin> set v)
                      \<and> k \<noteq> [] \<and> NUL \<notin> set k \<and> NUL \<notin> set v
                      \<and> drop 4 payload = wire es @ k @ NUL # v"
  have d: "decodeFrame conn =
             (if ?ssl then Inr (SSLRequest, header, payload, conn2)
              else if length payload < 4 then Inl PayloadTooShort
              else (case readParams (drop 4 payload) Map.empty of
                      Inl e \<Rightarrow> Inl e
                    | Inr params \<Rightarrow> Inr (StartupMessage params, header, payload, conn2)))"
    using s r2 by (simp add: decodeFrame_after_header [OF r1 h] n isSSLRequest_iff)
  have m: "readParams (drop 4 payload) Map.empty = Inl Malformed \<longleftrightarrow> ?bad"
    by (rule readParams_Malformed_iff)
  have 1: "decodeFrame conn = Inl PayloadTooShort \<longleftrightarrow> length payload < 4"
    unfolding d by (auto split: sum.splits dest: readParams_Inl)
  have 2: "decodeFrame conn = Inr (SSLRequest, header, payload, conn2) \<longleftrightarrow> ?ssl"
    unfolding d by (auto split: sum.splits)
  have 3: "decodeFrame conn = Inl Malformed \<longleftrightarrow>
             4 \<le> length payload
             \<and> take 4 payload \<noteq> [CHR 0x04, CHR 0xD2, CHR 0x16, CHR 0x2F] \<and> ?bad"
    unfolding d m [symmetric] by (auto split: sum.splits)
  have 4: "decodeFrame conn = Inl PayloadTooShort
             \<or> decodeFrame conn = Inr (SSLRequest, header, payload, conn2)
             \<or> decodeFrame conn = Inl Malformed
             \<or> (\<exists>params. decodeFrame conn = Inr (StartupMessage params, header, payload, conn2))"
    unfolding d by (auto split: sum.splits dest: readParams_Inl)
  from r2 l 1 2 3 4 show ?thesis by (intro exI conjI)
qed

text \<open>The frame of 65540 bytes is read in full and is a startup message.\<close>

theorem no_length_ceiling_witness:
  "ReadFull (Conn big_frame [] True None) 4
     = Some ([NUL, CHR 0x01, NUL, CHR 0x04], Conn (drop 4 big_frame) [] True None) \<and>
   Uint32 [NUL, CHR 0x01, NUL, CHR 0x04] = Some 65540 \<and>
   4 \<le> unat (65540 :: 32 word) \<and> unat (65540 :: 32 word) < 2 ^ 31 \<and>
   unat (65540 :: 32 word) - 4 \<le> length (unread (Conn (drop 4 big_frame) [] True None)) \<and>
   (\<exists>payload conn2.
      ReadFull (Conn (drop 4 big_frame) [] True None) (unat (65540 :: 32 word) - 4)
        = Some (payload, conn2)
      \<and> length payload = unat (65540 :: 32 word) - 4
      \<and> decodeFrame (Conn big_frame [] True None) \<noteq> Inl PayloadTooShort
      \<and> decodeFrame (Conn big_frame [] True None) \<noteq> Inl Malformed
      \<and> decodeFrame (Conn big_frame [] True None)
            = Inr (StartupMessage Map.empty, [NUL, CHR 0x01, NUL, CHR 0x04], payload, conn2))"
proof -
  let ?c = "Conn big_frame [] True None"
  let ?hd = "[NUL, CHR 0x01, NUL, CHR 0x04]"
  have r1: "ReadFull ?c 4 = Some (?hd, Conn (drop 4 big_frame) [] True None)"
    by (simp add: big_frame_def)
  have h: "Uint32 ?hd = Some 65540" by simp
  have lo: "4 \<le> unat (65540 :: 32 word)" by simp
  have hi: "unat (65540 :: 32 word) < 2 ^ 31" by simp
  have av: "unat (65540 :: 32 word) - 4 \<le> length (unread (Conn (drop 4 big_frame) [] True None))"
    by (simp add: big_frame_def)
  have t4: "take 4 big_frame = ?hd" by (simp add: big_frame_def)
  from no_length_ceiling [OF r1 h lo hi av] obtain payload conn2 where
    r2: "ReadFull (Conn (drop 4 big_frame) [] True None) (unat (65540 :: 32 word) - 4)
           = Some (payload, conn2)"
    and l: "length payload = unat (65540 :: 32 word) - 4"
    and short: "decodeFrame ?c = Inl PayloadTooShort \<longleftrightarrow> length payload < 4"
    and cases: "decodeFrame ?c = Inl PayloadTooShort
                \<or> decodeFrame ?c = Inr (SSLRequest, ?hd, payload, conn2)
                \<or> decodeFrame ?c = Inl Malformed
                \<or> (\<exists>params. decodeFrame ?c = Inr (StartupMessage params, ?hd, payload, conn2))"
    by (elim exE conjE)
  from short l have a: "decodeFrame ?c \<noteq> Inl PayloadTooShort" by simp
  from cases have b: "decodeFrame ?c \<noteq> Inl Malformed
      \<and> decodeFrame ?c = Inr (StartupMessage Map.empty, ?hd, payload, conn2)"
    by (auto simp: big_decode)
  from r2 l a b have "\<exists>payload conn2.
      ReadFull (Conn (drop 4 big_frame) [] True None) (unat (65540 :: 32 word) - 4)
        = Some (payload, conn2)
      \<and> length payload = unat (65540 :: 32 word) - 4
      \<and> decodeFrame ?c \<noteq> Inl PayloadTooShort
      \<and> decodeFrame ?c \<noteq> Inl Malformed
      \<and> decodeFrame ?c = Inr (StartupMessage Map.empty, ?hd, payload, conn2)"
    by (intro exI conjI) simp_all
  with r1 h lo hi av show ?thesis by (intro conjI)
qed

text \<open>
  Claim C7 as stated fails at a frame whose declared length 65540 exceeds 64 KiB: the
  decoder accepts it as a startup message and the handshake succeeds.
\<close>

theorem no_length_ceiling_counterexample:
  "length big_frame = 65540 \<and> 64 * 1024 < length big_frame \<and>
   Uint32 (take 4 big_frame) = Some 65540 \<and>
   decodeFrame (Conn big_frame [] True None)
     = Inr (StartupMessage Map.empty, take 4 big_frame, drop 4 big_frame, Conn [] [] True None) \<and>
   Handshake (Conn big_frame [] True None) [] [] = Inr (Map.empty, Conn [] [] True None)"
proof -
  have l: "length big_frame = 65540" by (simp add: big_frame_def)
  have u: "Uint32 (take 4 big_frame) = Some 65540" by (simp add: big_frame_def)
  have hs: "Handshake (Conn big_frame [] True None) [] [] = Inr (Map.empty, Conn [] [] True None)"
    by (simp add: Handshake_startup [OF big_decode] tenantParse_no_user storeReplay_no_user)
  from l u big_decode hs show ?thesis by simp
qed

text \<open>
  Claim C8. When the user string splits on the dot into exactly two parts and the last
  part is \<open>pool\<close>, a successful handshake returns metadata with \<open>pooled\<close> set to
  \<open>true\<close>, and it sets neither \<open>deployment_id\<close> nor \<open>username\<close>: both keys are in the
  metadata exactly as the client sent them, so absent when the client did not send them.
\<close>

theorem two_part_pool:
  assumes "upgrades conn0 conn"
    and "decodeFrame conn = Inr (StartupMessage params, header, payload, conn2)"
    and "params ''user'' = Some u"
    and "Split u CHR ''.'' = [a, ''pool'']"
    and "Handshake conn0 ks1 ks2 = Inr (metadata, conn')"
  shows "metadata ''pooled'' = Some ''true''
         \<and> metadata ''deployment_id'' = params ''deployment_id''
         \<and> metadata ''username'' = params ''username''"
proof -
  from assms(1,2,5)
  have "storeReplay header payload (tenantParse params) conn2 ks1 ks2 = Inr (metadata, conn')"
    by (simp add: Handshake_decoded)
  then have "\<forall>k. k \<noteq> ''_raw_startup_message'' \<longrightarrow> metadata k = tenantParse params k"
    by (auto dest: storeReplay_Inr)
  then show ?thesis
    using tenantParse_two_pool [of params u a] assms(3,4) by simp
qed

text \<open>The two-part case at the frame with \<open>user = x.pool\<close>.\<close>

theorem two_part_pool_witness:
  "upgrades (Conn pool_frame [] True None) (Conn pool_frame [] True None) \<and>
   decodeFrame (Conn pool_frame [] True None)
     = Inr (StartupMessage [''user'' \<mapsto> ''x.pool''], take 4 pool_frame, drop 4 pool_frame,
            Conn [] [] True None) \<and>
   [''user'' \<mapsto> ''x.pool''] ''user'' = Some ''x.pool'' \<and>
   Split ''x.pool'' CHR ''.'' = [''x'', ''pool''] \<and>
   Handshake (Conn pool_frame [] True None) [] []
     = Inr ([''user'' \<mapsto> ''x.pool'', ''pooled'' \<mapsto> ''true'',
             ''_raw_startup_message'' \<mapsto> pool_frame], Conn [] [] True None) \<and>
   [''user'' \<mapsto> ''x.pool'', ''pooled'' \<mapsto> ''true'', ''_raw_startup_message'' \<mapsto> pool_frame]
     ''pooled'' = Some ''true'' \<and>
   [''user'' \<mapsto> ''x.pool'', ''pooled'' \<mapsto> ''true'', ''_raw_startup_message'' \<mapsto> pool_frame]
     ''deployment_id'' = [''user'' \<mapsto> ''x.pool''] ''deployment_id'' \<and>
   [''user'' \<mapsto> ''x.pool'', ''pooled'' \<mapsto> ''true'', ''_raw_startup_message'' \<mapsto> pool_frame]
     ''username'' = [''user'' \<mapsto> ''x.pool''] ''username''"
proof -
  have u: "[''user'' \<mapsto> ''x.pool''] ''user'' = Some ''x.pool''" by simp
  have sp: "Split ''x.pool'' CHR ''.'' = [''x'', ''pool'']" by simp
  from two_part_pool [OF upgrades.here pool_decode u sp pool_handshake [of "[]" "[]"]]
    upgrades.here pool_decode u sp pool_handshake [of "[]" "[]"]
  show ?thesis by (intro conjI) simp_all
qed

text \<open>
  Claim C9. For every startup message whose parameters contain a \<open>user\<close> key, the
  metadata that a successful handshake returns has the key \<open>pooled\<close>, and its value is
  either \<open>true\<close> or \<open>false\<close>.
\<close>

theorem pooled_flag_total:
  assumes "upgrades conn0 conn"
    and "decodeFrame conn = Inr (StartupMessage params, header, payload, conn2)"
    and "params ''user'' = Some u"
    and "Handshake conn0 ks1 ks2 = Inr (metadata, conn')"
  shows "metadata ''pooled'' = Some ''true'' \<or> metadata ''pooled'' = Some ''false''"
proof -
  from assms(1,2,4)
  have "storeReplay header payload (tenantParse params) conn2 ks1 ks2 = Inr (metadata, conn')"
    by (simp add: Handshake_decoded)
  then have "metadata ''pooled'' = tenantParse params ''pooled''"
    by (auto dest: storeReplay_Inr)
  with tenantParse_pooled [of params u] assms(3) show ?thesis by simp
qed

text \<open>The pooled flag at the frame with \<open>user = bob\<close>.\<close>

theorem pooled_flag_total_witness:
  "upgrades (Conn bob_frame [] True None) (Conn bob_frame [] True None) \<and>
   decodeFrame (Conn bob_frame [] True None)
     = Inr (StartupMessage [''user'' \<mapsto> ''bob''], take 4 bob_frame, drop 4 bob_frame,
            Conn [] [] True None) \<and>
   [''user'' \<mapsto> ''bob''] ''user'' = Some ''bob'' \<and>
   Handshake (Conn bob_frame [] True None) [] []
     = Inr ([''user'' \<mapsto> ''bob'', ''pooled'' \<mapsto> ''false'',
             ''_raw_startup_message'' \<mapsto> bob_frame], Conn [] [] True None) \<and>
   ([''user'' \<mapsto> ''bob'', ''pooled'' \<mapsto> ''false'', ''_raw_startup_message'' \<mapsto> bob_frame]
      ''pooled'' = Some ''true'' \<or>
    [''user'' \<mapsto> ''bob'', ''pooled'' \<mapsto> ''false'', ''_raw_startup_message'' \<mapsto> bob_frame]
      ''pooled'' = Some ''false'')"
proof -
  have u: "[''user'' \<mapsto> ''bob''] ''user'' = Some ''bob''" by simp
  from pooled_flag_total [OF upgrades.here bob_decode u bob_handshake [of "[]" "[]"]]
    upgrades.here bob_decode u bob_handshake [of "[]" "[]"]
  show ?thesis by (intro conjI)
qed

text \<open>
  Claim C10, as amended. For every startup message whose parameters contain neither a
  \<open>user\<close> key nor a key named \<^verbatim>\<open>_raw_startup_message\<close>, the handshake succeeds and returns
  the parameters unchanged, so without the reserved replay key; when the resolver and the
  dial succeed, the dispatch engine starts the relay with the backend connection exactly as
  it was dialled, having written nothing to it.
\<close>

theorem no_user_no_replay:
  assumes "upgrades conn0 conn"
    and "decodeFrame conn = Inr (StartupMessage params, header, payload, conn2)"
    and "params ''user'' = None"
    and "params ''_raw_startup_message'' = None"
    and "Resolve s params = Some backendAddr"
    and "Dial s backendAddr = Some backendConn"
  shows "Handshake conn0 ks1 ks2 = Inr (params, conn2)
         \<and> handleConnection s conn0 ks1 ks2 = Inr (conn2, backendConn)"
proof -
  have "Handshake conn0 ks1 ks2 = Inr (params, conn2)"
    using assms(3)
    by (simp add: Handshake_decoded [OF assms(1,2)] tenantParse_no_user storeReplay_no_user)
  then show ?thesis
    using assms(4-6) by (simp add: handleConnection_def)
qed

text \<open>The case without a user at the frame with \<open>database = app\<close>.\<close>

theorem no_user_no_replay_witness:
  "upgrades (Conn app_frame [] True None) (Conn app_frame [] True None) \<and>
   decodeFrame (Conn app_frame [] True None)
     = Inr (StartupMessage [''database'' \<mapsto> ''app''], take 4 app_frame, drop 4 app_frame,
            Conn [] [] True None) \<and>
   [''database'' \<mapsto> ''app''] ''user'' = None \<and>
   [''database'' \<mapsto> ''app''] ''_raw_startup_message'' = None \<and>
   Resolve example_server [''database'' \<mapsto> ''app''] = Some ''10.0.0.1:5432'' \<and>
   Dial example_server ''10.0.0.1:5432'' = Some (Conn [] [] True None) \<and>
   Handshake (Conn app_frame [] True None) [] []
     = Inr ([''database'' \<mapsto> ''app''], Conn [] [] True None) \<and>
   handleConnection example_server (Conn app_frame [] True None) [] []
     = Inr (Conn [] [] True None, Conn [] [] True None)"
proof -
  have u: "[''database'' \<mapsto> ''app''] ''user'' = None" by simp
  have r: "[''database'' \<mapsto> ''app''] ''_raw_startup_message'' = None" by simp
  have res: "Resolve example_server [''database'' \<mapsto> ''app''] = Some ''10.0.0.1:5432''"
    by (simp add: example_server_def)
  have dial: "Dial example_server ''10.0.0.1:5432'' = Some (Conn [] [] True None)"
    by (simp add: example_server_def)
  from no_user_no_replay [OF upgrades.here app_decode u r res dial, of "[]" "[]"]
    upgrades.here app_decode u r res dial
  show ?thesis by (intro conjI) simp_all
qed

text \<open>
  Claim C10 as stated fails when the client itself sends a parameter named
  \<^verbatim>\<open>_raw_startup_message\<close> and no \<open>user\<close>: the parameter stays in the metadata, and the
  dispatch engine writes its value, here the one byte \<open>x\<close>, to the backend before the relay.
\<close>

theorem no_user_no_replay_counterexample:
  "decodeFrame (Conn smuggle_frame [] True None)
     = Inr (StartupMessage [''_raw_startup_message'' \<mapsto> ''x''], take 4 smuggle_frame,
            drop 4 smuggle_frame, Conn [] [] True None) \<and>
   [''_raw_startup_message'' \<mapsto> ''x''] ''user'' = None \<and>
   Handshake (Conn smuggle_frame [] True None) [] []
     = Inr ([''_raw_startup_message'' \<mapsto> ''x''], Conn [] [] True None) \<and>
   handleConnection example_server (Conn smuggle_frame [] True None) [] []
     = Inr (Conn [] [] True None, Conn [] ''x'' True None)"
proof -
  have u: "[''_raw_startup_message'' \<mapsto> ''x''] ''user'' = None" by simp
  have hs: "Handshake (Conn smuggle_frame [] True None) [] []
     = Inr ([''_raw_startup_message'' \<mapsto> ''x''], Conn [] [] True None)"
    by (simp add: Handshake_startup [OF smuggle_decode] tenantParse_no_user storeReplay_no_user)
  have "handleConnection example_server (Conn smuggle_frame [] True None) [] []
     = Inr (Conn [] [] True None, Conn [] ''x'' True None)"
    by (simp add: handleConnection_def hs example_server_def)
  with smuggle_decode u hs show ?thesis by (intro conjI)
qed

end
